theory Spec2Isabelle
  imports Main
begin

section \<open>SmartGCode: the G-code rewrite and the tool comment reader\<close>

text \<open>
  A shallow embedding of \<^verbatim>\<open>src/UsefulMacros/SmartGCode.js\<close>: the functions
  \<^verbatim>\<open>GetToolInfo\<close> and \<^verbatim>\<open>OptimizeGCode\<close>, the regular expressions they use and
  the editor document they read and edit. A document is the list of its lines, a line is
  a \<^typ>\<open>string\<close>.

  Numbers. The source turns matched text into IEEE doubles with \<^verbatim>\<open>Number(...)\<close>. The
  texts its patterns capture are an optional minus sign followed by digits and dots, so
  the result is \<^verbatim>\<open>NaN\<close> (no digit, or more than one dot), an infinity, or the double
  nearest to the decimal fraction written, a tie going to the even one. The model
  rounds the same way and keeps the exact value of the double, so its comparisons and
  prints are those of the source.
\<close>

subsection \<open>The editor document\<close>

type_synonym document = "string list"

text \<open>
  Modelled from the spec: the editor document's primitives (section 6: get line count, get
  line text at index, replace text range, insert full lines at index) belong to the
  editor widget, which is not under src/. A row past the end reads as the empty line; an
  insertion row is clipped to the end of the document; a range is replaced inside one
  line, and the text put in holds no line break.
\<close>

definition getLength :: "document \<Rightarrow> nat" where
  "getLength d = length d"

definition getLine :: "document \<Rightarrow> nat \<Rightarrow> string" where
  "getLine d row = (if row < length d then d ! row else [])"

definition insertFullLines :: "document \<Rightarrow> nat \<Rightarrow> string list \<Rightarrow> document" where
  "insertFullLines d row ls = take row d @ ls @ drop row d"

definition replaceRange :: "document \<Rightarrow> nat \<Rightarrow> nat \<Rightarrow> nat \<Rightarrow> string \<Rightarrow> document" where
  "replaceRange d row c1 c2 txt =
     (if row < length d then d[row := take c1 (d ! row) @ txt @ drop c2 (d ! row)] else d)"

subsection \<open>Strings and patterns\<close>

definition startsWith :: "string \<Rightarrow> string \<Rightarrow> bool" where
  "startsWith s p = (take (length p) s = p)"

text \<open>\<^verbatim>\<open>s.indexOf(p)\<close>: the first position where \<open>p\<close> stands in \<open>s\<close>, or -1.\<close>

fun indexOf :: "string \<Rightarrow> string \<Rightarrow> int" where
  "indexOf [] p = (if p = [] then 0 else - 1)"
| "indexOf (c # cs) p =
     (if startsWith (c # cs) p then 0
      else (let r = indexOf cs p in if r = - 1 then - 1 else r + 1))"

text \<open>\<^verbatim>\<open>\d\<close> and \<^verbatim>\<open>[\d\.]\<close>.\<close>

definition isDigit :: "char \<Rightarrow> bool" where
  "isDigit c = (c \<in> set ''0123456789'')"

definition isNumChar :: "char \<Rightarrow> bool" where
  "isNumChar c = (isDigit c \<or> c = CHR ''.'')"

text \<open>
  A pattern is tried at one position by a function from the text at that position to the
  result of the match; \<open>search\<close> tries the positions from the left, as \<^verbatim>\<open>String.match\<close>
  does, and \<open>replaceFirst\<close> is \<^verbatim>\<open>String.replace\<close> for a pattern whose matcher returns
  the text after the match.
\<close>

fun search :: "(string \<Rightarrow> 'a option) \<Rightarrow> string \<Rightarrow> 'a option" where
  "search m [] = m []"
| "search m (c # cs) = (case m (c # cs) of Some r \<Rightarrow> Some r | None \<Rightarrow> search m cs)"

fun replaceFirst :: "(string \<Rightarrow> string option) \<Rightarrow> string \<Rightarrow> string \<Rightarrow> string" where
  "replaceFirst m rep [] = (case m [] of Some r \<Rightarrow> rep @ r | None \<Rightarrow> [])"
| "replaceFirst m rep (c # cs) =
     (case m (c # cs) of Some r \<Rightarrow> rep @ r | None \<Rightarrow> c # replaceFirst m rep cs)"

definition afterPrefix :: "string \<Rightarrow> string \<Rightarrow> string option" where
  "afterPrefix p s = (if startsWith s p then Some (drop (length p) s) else None)"

text \<open>\<^verbatim>\<open>([\d\.]+)\<close> and \<^verbatim>\<open>(-?[\d\.]+)\<close> at the start of a text: the captured group.\<close>

definition numText :: "string \<Rightarrow> string option" where
  "numText s = (if takeWhile isNumChar s = [] then None else Some (takeWhile isNumChar s))"

definition signedNumText :: "string \<Rightarrow> string option" where
  "signedNumText s =
     (case s of
        [] \<Rightarrow> None
      | c # r \<Rightarrow>
          if c = CHR ''-'' \<and> takeWhile isNumChar r \<noteq> [] then Some (c # takeWhile isNumChar r)
          else numText s)"

text \<open>
  \<^verbatim>\<open>/^G(\d+)/\<close>: the captured digits and the text after the match; the pattern is
  anchored, so it is tried at the start of the line only.
\<close>

definition matchG :: "string \<Rightarrow> (string \<times> string) option" where
  "matchG s =
     (case afterPrefix ''G'' s of
        None \<Rightarrow> None
      | Some r \<Rightarrow>
          if takeWhile isDigit r = [] then None
          else Some (takeWhile isDigit r, dropWhile isDigit r))"

text \<open>\<^verbatim>\<open>/Z(-?[\d\.]+)/\<close>, \<^verbatim>\<open>/F([\d\.]+)/\<close> and \<^verbatim>\<open>/ZMIN=(-?[\d\.]+)/\<close>.\<close>

definition matchZ :: "string \<Rightarrow> string option" where
  "matchZ s = (case afterPrefix ''Z'' s of None \<Rightarrow> None | Some r \<Rightarrow> signedNumText r)"

definition matchF :: "string \<Rightarrow> string option" where
  "matchF s = (case afterPrefix ''F'' s of None \<Rightarrow> None | Some r \<Rightarrow> numText r)"

definition matchZMIN :: "string \<Rightarrow> string option" where
  "matchZMIN s = (case afterPrefix ''ZMIN='' s of None \<Rightarrow> None | Some r \<Rightarrow> signedNumText r)"

text \<open>
  \<^verbatim>\<open>/T\d+ /\<close> and \<^verbatim>\<open>/ ZMIN.*-/\<close>, each returning the text after the match. The star is
  greedy: the second pattern runs to the last minus sign of the line.
\<close>

definition matchTool :: "string \<Rightarrow> string option" where
  "matchTool s =
     (case afterPrefix ''T'' s of
        None \<Rightarrow> None
      | Some r \<Rightarrow>
          if takeWhile isDigit r \<noteq> [] \<and> startsWith (dropWhile isDigit r) '' ''
          then Some (drop 1 (dropWhile isDigit r)) else None)"

definition matchZminDash :: "string \<Rightarrow> string option" where
  "matchZminDash s =
     (case afterPrefix '' ZMIN'' s of
        None \<Rightarrow> None
      | Some r \<Rightarrow>
          if CHR ''-'' \<in> set r then Some (rev (takeWhile (\<lambda>c. c \<noteq> CHR ''-'') (rev r)))
          else None)"

subsection \<open>Numbers\<close>

text \<open>
  A number of the source is an IEEE double. \<open>Decimal m k\<close> is the double whose value is
  \<open>m / 10 ^ k\<close> (every double is such a fraction); minus zero is not told from zero, which
  no comparison and no print of the source does either.
\<close>

datatype jsnum = NaN | Decimal int nat | PosInfinity | NegInfinity

definition digitVal :: "char \<Rightarrow> nat" where
  "digitVal c = of_char c - 48"

definition digitsVal :: "string \<Rightarrow> nat" where
  "digitsVal ds = foldl (\<lambda>a c. 10 * a + digitVal c) 0 ds"

text \<open>
  Rounding to a double. \<open>bitlen n\<close> is the number of binary digits of \<open>n\<close>,
  \<open>floorLog2 a b\<close> the binary exponent of \<open>a / b\<close>, \<open>roundEven a b\<close> the integer nearest to
  \<open>a / b\<close>, a tie going to the even one. \<open>nearestDouble a b\<close> is the double nearest to
  \<open>a / b\<close>, as \<open>(q, e)\<close> with the value \<open>q * 2 ^ e\<close>: 53 binary digits, no exponent below
  -1074, and no double (\<open>None\<close>, the infinity of the source) from \<open>2 ^ 1024\<close> on.
\<close>

fun bitlen :: "nat \<Rightarrow> nat" where
  "bitlen n = (if n = 0 then 0 else Suc (bitlen (n div 2)))"

declare bitlen.simps [simp del]

definition floorLog2 :: "nat \<Rightarrow> nat \<Rightarrow> int" where
  "floorLog2 a b =
     (let l = int (bitlen a) - int (bitlen b) in
      if b * 2 ^ nat l \<le> a * 2 ^ nat (- l) then l else l - 1)"

definition roundEven :: "nat \<Rightarrow> nat \<Rightarrow> nat" where
  "roundEven a b =
     (let q = a div b; r = a mod b in
      if 2 * r < b then q else if b < 2 * r then q + 1 else if even q then q else q + 1)"

definition nearestDouble :: "nat \<Rightarrow> nat \<Rightarrow> (nat \<times> int) option" where
  "nearestDouble a b =
     (let e = max (floorLog2 a b - 52) (- 1074);
          q = roundEven (a * 2 ^ nat (- e)) (b * 2 ^ nat e)
      in if 971 < e \<or> (e = 971 \<and> 2 ^ 53 \<le> q) then None else Some (q, e))"

text \<open>
  The double nearest to \<open>m / 10 ^ k\<close>, with the sign \<open>neg\<close>. A numeral that is a double
  as it stands keeps its digits; any other is replaced by the digits of its double.
\<close>

definition toDouble :: "bool \<Rightarrow> nat \<Rightarrow> nat \<Rightarrow> jsnum" where
  "toDouble neg m k =
     (case nearestDouble m (10 ^ k) of
        None \<Rightarrow> (if neg then NegInfinity else PosInfinity)
      | Some (q, e) \<Rightarrow>
          if (m * 2 ^ nat (- e)) mod (10 ^ k * 2 ^ nat e) = 0
          then Decimal (if neg then - int m else int m) k
          else Decimal (if neg then - int (q * 2 ^ nat e * 5 ^ nat (- e))
                        else int (q * 2 ^ nat e * 5 ^ nat (- e))) (nat (- e)))"

text \<open>\<^verbatim>\<open>Number(t)\<close> for a text of digits and dots: one dot at most, one digit at least.\<close>

definition unsignedNumber :: "string \<Rightarrow> (nat \<times> nat) option" where
  "unsignedNumber t =
     (let ip = takeWhile isDigit t; r = dropWhile isDigit t in
      if r = [] then (if ip = [] then None else Some (digitsVal ip, 0))
      else if hd r = CHR ''.'' \<and> list_all isDigit (tl r) \<and> (ip \<noteq> [] \<or> tl r \<noteq> [])
      then Some (digitsVal (ip @ tl r), length (tl r))
      else None)"

definition Number :: "string \<Rightarrow> jsnum" where
  "Number t =
     (case t of
        [] \<Rightarrow> Decimal 0 0
      | c # r \<Rightarrow>
          if c = CHR ''-''
          then (case unsignedNumber r of None \<Rightarrow> NaN | Some (m, k) \<Rightarrow> toDouble True m k)
          else (case unsignedNumber t of None \<Rightarrow> NaN | Some (m, k) \<Rightarrow> toDouble False m k))"

text \<open>
  The comparisons \<^verbatim>\<open><\<close> and \<^verbatim>\<open>>=\<close> on values that may be \<^verbatim>\<open>undefined\<close> (\<open>None\<close>):
  \<^verbatim>\<open>undefined\<close> converts to \<^verbatim>\<open>NaN\<close>, and every comparison with \<^verbatim>\<open>NaN\<close> is false.
\<close>

fun num_lt :: "jsnum \<Rightarrow> jsnum \<Rightarrow> bool" where
  "num_lt (Decimal m j) (Decimal n k) = (m * 10 ^ k < n * 10 ^ j)"
| "num_lt (Decimal m j) PosInfinity = True"
| "num_lt NegInfinity (Decimal n k) = True"
| "num_lt NegInfinity PosInfinity = True"
| "num_lt x y = False"

definition js_lt :: "jsnum option \<Rightarrow> jsnum option \<Rightarrow> bool" where
  "js_lt a b = (case (a, b) of (Some x, Some y) \<Rightarrow> num_lt x y | _ \<Rightarrow> False)"

definition js_ge :: "jsnum option \<Rightarrow> jsnum option \<Rightarrow> bool" where
  "js_ge a b =
     (case (a, b) of
        (Some x, Some y) \<Rightarrow> x \<noteq> NaN \<and> y \<noteq> NaN \<and> \<not> num_lt x y
      | _ \<Rightarrow> False)"

text \<open>Decimal digits of a natural number, as \<^verbatim>\<open>toFixed(0)\<close> prints an integer.\<close>

definition digitChar :: "nat \<Rightarrow> char" where
  "digitChar n = ''0123456789'' ! n"

fun digitsOf :: "nat \<Rightarrow> string" where
  "digitsOf n =
     (if n < 10 then [digitChar n]
      else digitsOf (n div 10) @ [digitChar (n mod 10)])"

declare digitsOf.simps [simp del]

text \<open>
  A double from \<open>10 ^ 21\<close> on is an integer \<open>v\<close> and is printed with an exponent, from the
  fewest digits that still read back as \<open>v\<close>: \<open>shortest\<close> tries 1, 2, ... 17 leading digits,
  the rest zeros, rounded down (\<open>lo\<close>) and up (\<open>hi\<close>); where both read back as \<open>v\<close> the
  nearer one is taken, and of two equally near the one whose last digit is even.
\<close>

definition roundsTo :: "nat \<Rightarrow> nat \<Rightarrow> bool" where
  "roundsTo c v =
     (case nearestDouble c 1 of
        None \<Rightarrow> False
      | Some (q, e) \<Rightarrow> q * 2 ^ nat e = v * 2 ^ nat (- e))"

fun shortest :: "nat \<Rightarrow> nat \<Rightarrow> nat \<Rightarrow> nat" where
  "shortest n kd v =
     (if n = 0 then v
      else (let scale = 10 ^ (length (digitsOf v) - kd);
                lo = (v div scale) * scale;
                hi = lo + scale
            in if roundsTo lo v \<and> roundsTo hi v
               then (if v - lo < hi - v then lo
                     else if hi - v < v - lo then hi
                     else if even (v div scale) then lo else hi)
               else if roundsTo lo v then lo
               else if roundsTo hi v then hi
               else shortest (n - 1) (kd + 1) v))"

declare shortest.simps [simp del]

definition expForm :: "nat \<Rightarrow> string" where
  "expForm w =
     (let ds = digitsOf w;
          sig = rev (dropWhile (\<lambda>c. c = CHR ''0'') (rev ds))
      in take 1 sig @ (if length sig \<le> 1 then [] else CHR ''.'' # drop 1 sig)
         @ ''e+'' @ digitsOf (length ds - 1))"

text \<open>
  \<^verbatim>\<open>x.toFixed(0)\<close> for a value that is not negative (a feed has no sign): \<^verbatim>\<open>NaN\<close> and
  \<^verbatim>\<open>Infinity\<close> print as themselves, a value below \<open>10 ^ 21\<close> is rounded to the nearest
  integer, a tie going up, and a larger one is printed with an exponent.
\<close>

definition toFixed0 :: "jsnum \<Rightarrow> string" where
  "toFixed0 x =
     (case x of
        NaN \<Rightarrow> ''NaN''
      | PosInfinity \<Rightarrow> ''Infinity''
      | NegInfinity \<Rightarrow> ''-Infinity''
      | Decimal m k \<Rightarrow>
          if nat m < 10 ^ (21 + k) then digitsOf ((2 * nat m + 10 ^ k) div (2 * 10 ^ k))
          else expForm (shortest 17 1 (nat m div 10 ^ k)))"

subsection \<open>GetToolInfo\<close>

record toolInfo =
  toolName :: string
  minZ :: "jsnum option"

text \<open>
  The tool name is the whole line after two replacements; the minimum Z is the number
  after the first \<^verbatim>\<open>ZMIN=\<close> that a number follows, or \<^verbatim>\<open>undefined\<close> (\<open>None\<close>).
\<close>

definition toolNameOf :: "string \<Rightarrow> string" where
  "toolNameOf line = replaceFirst matchZminDash [] (replaceFirst matchTool [] line)"

definition minZOf :: "string \<Rightarrow> jsnum option" where
  "minZOf line = map_option Number (search matchZMIN line)"

text \<open>
  The loop over the rows of the document, which it only reads: the first line that starts
  with \<^verbatim>\<open>(T\<close> decides; \<open>None\<close> is the \<^verbatim>\<open>undefined\<close> returned after the loop.
\<close>

fun GetToolInfo :: "document \<Rightarrow> toolInfo option" where
  "GetToolInfo [] = None"
| "GetToolInfo (line # rest) =
     (if startsWith line ''(T''
      then Some \<lparr>toolName = toolNameOf line, minZ = minZOf line\<rparr>
      else GetToolInfo rest)"

subsection \<open>OptimizeGCode\<close>

definition blockStart :: string where
  "blockStart = ''(When using Fusion 360 for Personal Use''"

definition doneMarker :: string where
  "doneMarker = ''(OPTIMIZED: When using Fusion 360 for Personal Use''"

text \<open>
  The first loop. \<open>Some i\<close>: the block start was found at row \<open>i\<close> (the source then edits
  that row and leaves the loop with \<^verbatim>\<open>optimize = true\<close>); \<open>None\<close>: the function returns
  without an edit, at a line that carries the done marker or after the last line.
\<close>

fun firstLoop :: "document \<Rightarrow> nat \<Rightarrow> nat option" where
  "firstLoop [] i = None"
| "firstLoop (line # rest) i =
     (if startsWith line blockStart then Some i
      else if startsWith line doneMarker then None
      else firstLoop rest (i + 1))"

text \<open>The variables of the second loop, with the document they edit.\<close>

record state =
  doc :: document
  lineIdx :: nat
  lineCount :: nat
  curZ :: "jsnum option"
  curG :: "nat option"
  curF :: "jsnum option"
  feedZ :: "jsnum option"
  restoreF :: bool
  optimized :: bool

datatype error = TypeError

text \<open>The three words of a line: \<^verbatim>\<open>g\<close>, \<^verbatim>\<open>z\<close> and \<^verbatim>\<open>f\<close> of the source.\<close>

definition wordG :: "string \<Rightarrow> nat option" where
  "wordG line = map_option (\<lambda>(ds, r). digitsVal ds) (matchG line)"

definition wordZ :: "string \<Rightarrow> jsnum option" where
  "wordZ line = map_option Number (search matchZ line)"

definition wordF :: "string \<Rightarrow> jsnum option" where
  "wordF line = map_option Number (search matchF line)"

text \<open>Lines 91 to 101: a word found on the line overwrites the tracked value.\<close>

definition track :: "string \<Rightarrow> state \<Rightarrow> state" where
  "track line s =
     (let s1 = (case wordG line of None \<Rightarrow> s | Some g \<Rightarrow> s\<lparr>curG := Some g\<rparr>);
          s2 = (case wordZ line of None \<Rightarrow> s1 | Some z \<Rightarrow> s1\<lparr>curZ := Some z\<rparr>);
          s3 = (case wordF line of None \<Rightarrow> s2 | Some f \<Rightarrow> s2\<lparr>curF := Some f\<rparr>)
      in s3)"

text \<open>The line that replaces a promoted one (lines 112 to 119).\<close>

definition promote :: "string \<Rightarrow> string" where
  "promote line = (case matchG line of Some (ds, r) \<Rightarrow> ''G0'' @ r | None \<Rightarrow> ''G0 '' @ line)"

text \<open>
  Lines 89 to 129, for a line that is neither a comment nor a spindle start.
  \<^verbatim>\<open>curF.toFixed(0)\<close> throws a TypeError when \<^verbatim>\<open>curF\<close> is \<^verbatim>\<open>undefined\<close>; the argument is
  evaluated before the document is touched.
\<close>

definition rapid :: "string \<Rightarrow> state \<Rightarrow> error + state" where
  "rapid line s0 =
     (let lastZ = curZ s0; s = track line s0 in
      if curG s = Some 1 \<and> feedZ s = None \<and> curZ s \<noteq> None \<and> lastZ \<noteq> None
         \<and> js_lt (curZ s) lastZ
      then Inr (s\<lparr>feedZ := curZ s\<rparr>)
      else if curG s = Some 1 \<and> feedZ s \<noteq> None \<and> js_ge (curZ s) (feedZ s)
         \<and> js_ge (curZ s) lastZ
      then Inr (s\<lparr>doc := replaceRange (doc s) (lineIdx s) 0 (length line) (promote line),
                  restoreF := True, optimized := True\<rparr>)
      else if restoreF s
      then (case curF s of
              None \<Rightarrow> Inl TypeError
            | Some f \<Rightarrow>
                Inr (s\<lparr>doc := insertFullLines (doc s) (lineIdx s) [''G1 F'' @ toFixed0 f],
                       lineCount := lineCount s + 1, restoreF := False\<rparr>))
      else Inr s)"

text \<open>
  The body of the second loop (lines 71 to 129) for the spindle delay \<open>delay\<close>
  (\<^verbatim>\<open>SPINDLE_START_DELAY\<close>, a count of seconds); the loop adds the \<^verbatim>\<open>lineIdx++\<close> of
  the \<^verbatim>\<open>for\<close> statement.
\<close>

definition body :: "nat \<Rightarrow> state \<Rightarrow> error + state" where
  "body delay s0 =
     (let line = getLine (doc s0) (lineIdx s0);
          s = (if startsWith line blockStart then s0\<lparr>feedZ := None\<rparr> else s0)
      in if startsWith line ''(''
         then Inr s
         else if 0 < delay \<and> indexOf line ''M3'' \<noteq> - 1
         then Inr (s\<lparr>doc := insertFullLines (doc s) (lineIdx s + 1) [''G4 P'' @ digitsOf delay],
                     lineIdx := lineIdx s + 1, lineCount := lineCount s + 1\<rparr>)
         else rapid line s)"

definition loopMeasure :: "state \<Rightarrow> nat" where
  "loopMeasure s = 2 * (lineCount s - lineIdx s) + (if restoreF s then 1 else 0)"

lemma track_frame [simp]:
  "doc (track line s) = doc s"
  "lineIdx (track line s) = lineIdx s"
  "lineCount (track line s) = lineCount s"
  "feedZ (track line s) = feedZ s"
  "restoreF (track line s) = restoreF s"
  "optimized (track line s) = optimized s"
  by (simp_all add: track_def Let_def split: option.splits)

lemma rapid_decreases:
  assumes "lineIdx s < lineCount s" and "rapid line s = Inr s'"
  shows "loopMeasure (s'\<lparr>lineIdx := lineIdx s' + 1\<rparr>) < loopMeasure s"
proof -
  have "lineIdx s' = lineIdx s"
    using assms(2) by (auto simp: rapid_def Let_def split: if_splits option.splits)
  moreover have "lineCount s' - lineIdx s \<le> lineCount s - lineIdx s \<or>
      (restoreF s \<and> \<not> restoreF s' \<and> lineCount s' = lineCount s + 1)"
    using assms(2) by (auto simp: rapid_def Let_def split: if_splits option.splits)
  moreover have "lineCount s' = lineCount s \<or>
      (restoreF s \<and> \<not> restoreF s' \<and> lineCount s' = lineCount s + 1)"
    using assms(2) by (auto simp: rapid_def Let_def split: if_splits option.splits)
  ultimately show ?thesis
    using assms(1) by (auto simp: loopMeasure_def)
qed

lemma body_decreases:
  assumes "lineIdx s < lineCount s" and "body delay s = Inr s'"
  shows "loopMeasure (s'\<lparr>lineIdx := lineIdx s' + 1\<rparr>) < loopMeasure s"
proof -
  define line where "line = getLine (doc s) (lineIdx s)"
  define t where "t = (if startsWith line blockStart then s\<lparr>feedZ := None\<rparr> else s)"
  have t: "lineIdx t = lineIdx s" "lineCount t = lineCount s" "restoreF t = restoreF s"
    by (simp_all add: t_def)
  have m: "loopMeasure t = loopMeasure s"
    by (simp add: loopMeasure_def t)
  have "s' = t \<or>
      s' = t\<lparr>doc := insertFullLines (doc t) (lineIdx t + 1) [''G4 P'' @ digitsOf delay],
              lineIdx := lineIdx t + 1, lineCount := lineCount t + 1\<rparr> \<or>
      rapid line t = Inr s'"
    using assms(2) by (auto simp: body_def Let_def line_def t_def split: if_splits)
  then consider (comment) "s' = t"
    | (spindle) "s' = t\<lparr>doc := insertFullLines (doc t) (lineIdx t + 1) [''G4 P'' @ digitsOf delay],
                     lineIdx := lineIdx t + 1, lineCount := lineCount t + 1\<rparr>"
    | (motion) "rapid line t = Inr s'"
    by blast
  then show ?thesis
  proof cases
    case comment
    then show ?thesis using assms(1) by (simp add: loopMeasure_def t)
  next
    case spindle
    then show ?thesis using assms(1) by (simp add: loopMeasure_def t)
  next
    case motion
    then show ?thesis using rapid_decreases [of t line s'] assms(1) m by (simp add: t)
  qed
qed

function loop2 :: "nat \<Rightarrow> state \<Rightarrow> error option \<times> state" where
  "loop2 delay s =
     (if lineIdx s < lineCount s
      then (case body delay s of
              Inl e \<Rightarrow> (Some e, s)
            | Inr s' \<Rightarrow> loop2 delay (s'\<lparr>lineIdx := lineIdx s' + 1\<rparr>))
      else (None, s))"
  by pat_completeness auto
termination
proof (relation "measure (\<lambda>(delay, s). loopMeasure s)")
  show "wf (measure (\<lambda>(delay, s). loopMeasure s))"
    by simp
next
  fix delay :: nat and s s' :: state
  assume "lineIdx s < lineCount s" and "body delay s = Inr s'"
  then have "loopMeasure (s'\<lparr>lineIdx := lineIdx s' + 1\<rparr>) < loopMeasure s"
    by (rule body_decreases)
  then show "((delay, s'\<lparr>lineIdx := lineIdx s' + 1\<rparr>), (delay, s))
      \<in> measure (\<lambda>(delay, s). loopMeasure s)"
    by simp
qed

declare loop2.simps [simp del]

text \<open>
  What a call leaves behind: the document, whether the log line was printed, and the
  exception that ended the call, if one did.
\<close>

record outcome =
  document :: document
  logged :: bool
  thrown :: "error option"

definition initial :: "document \<Rightarrow> nat \<Rightarrow> state" where
  "initial d n =
     \<lparr>doc = d, lineIdx = 0, lineCount = n, curZ = None, curG = None, curF = None,
      feedZ = None, restoreF = False, optimized = False\<rparr>"

definition finish :: "error option \<times> state \<Rightarrow> outcome" where
  "finish r =
     \<lparr>document = doc (snd r), logged = (fst r = None \<and> optimized (snd r)), thrown = fst r\<rparr>"

definition OptimizeGCode :: "nat \<Rightarrow> document \<Rightarrow> outcome" where
  "OptimizeGCode delay d =
     (case firstLoop d 0 of
        None \<Rightarrow> \<lparr>document = d, logged = False, thrown = None\<rparr>
      | Some i \<Rightarrow>
          finish (loop2 delay (initial (replaceRange d i 1 1 ''OPTIMIZED: '') (getLength d))))"

definition SPINDLE_START_DELAY :: nat where
  "SPINDLE_START_DELAY = 3"

subsection \<open>The loop, one iteration at a time\<close>

text \<open>
  \<open>steps n\<close> is the second loop stopped after at most \<open>n\<close> iterations: the state it
  returns is the state the loop is in when it has examined \<open>n\<close> lines (or fewer, when the
  loop has ended or thrown before). With \<open>n\<close> large enough it is the loop itself
  (\<open>steps_loop2\<close> below).
\<close>

fun steps :: "nat \<Rightarrow> nat \<Rightarrow> state \<Rightarrow> error option \<times> state" where
  "steps 0 delay s = (None, s)"
| "steps (Suc n) delay s =
     (if lineIdx s < lineCount s
      then (case body delay s of
              Inl e \<Rightarrow> (Some e, s)
            | Inr s' \<Rightarrow> steps n delay (s'\<lparr>lineIdx := lineIdx s' + 1\<rparr>))
      else (None, s))"

subsection \<open>Notions the properties are stated with\<close>

text \<open>The comment lines of a document, in their order.\<close>

definition comments :: "document \<Rightarrow> string list" where
  "comments d = filter (\<lambda>l. startsWith l ''('') d"

text \<open>
  A line whose words the loop reads: it is not a comment and, when the delay is positive,
  does not hold \<^verbatim>\<open>M3\<close>.
\<close>

definition tracked :: "nat \<Rightarrow> string \<Rightarrow> bool" where
  "tracked delay line =
     (\<not> startsWith line ''('' \<and> \<not> (0 < delay \<and> indexOf line ''M3'' \<noteq> - 1))"

text \<open>
  The specification's reading of a tracked field, in its words: the last value that a
  line of the sequence specifies for the field \<open>w\<close>, or absent if none does.
\<close>

definition lastSpecified :: "(string \<Rightarrow> 'a option) \<Rightarrow> string list \<Rightarrow> 'a option" where
  "lastSpecified w ls = (case rev (List.map_filter w ls) of [] \<Rightarrow> None | v # vs \<Rightarrow> Some v)"

definition agrees :: "state \<Rightarrow> string list \<Rightarrow> bool" where
  "agrees s ls =
     (curG s = lastSpecified wordG ls \<and> curZ s = lastSpecified wordZ ls
      \<and> curF s = lastSpecified wordF ls)"

text \<open>
  The invariant of the second loop over the document \<open>d\<close> it started with: the tracked
  values are those of the first \<open>k\<close> lines, and the loop stands at line \<open>k\<close> of \<open>d\<close>, or
  once more at line \<open>k - 1\<close>.
\<close>

definition stickyInv :: "nat \<Rightarrow> document \<Rightarrow> nat \<Rightarrow> state \<Rightarrow> bool" where
  "stickyInv delay d k s =
     (lineCount s = length (doc s) \<and> k \<le> length d
      \<and> agrees s (filter (tracked delay) (take k d))
      \<and> (drop (lineIdx s) (doc s) = drop k d
         \<or> (0 < k \<and> drop (lineIdx s) (doc s) = drop (k - 1) d)))"

section \<open>Evaluation\<close>

text \<open>The defining equations that evaluate a call on a given document.\<close>

lemmas pattern_defs =
  startsWith_def afterPrefix_def numText_def signedNumText_def matchG_def matchZ_def
  matchF_def matchZMIN_def matchTool_def matchZminDash_def isDigit_def isNumChar_def

lemmas number_defs =
  digitVal_def digitsVal_def unsignedNumber_def Number_def Let_def js_lt_def js_ge_def
  toFixed0_def digitsOf.simps digitChar_def toDouble_def nearestDouble_def roundEven_def
  floorLog2_def bitlen.simps roundsTo_def expForm_def

lemmas run_defs =
  OptimizeGCode_def finish_def initial_def body_def rapid_def track_def promote_def
  getLine_def getLength_def insertFullLines_def replaceRange_def blockStart_def
  doneMarker_def wordG_def wordZ_def wordF_def loop2.simps SPINDLE_START_DELAY_def
  toolNameOf_def minZOf_def

text \<open>
  Numerals beyond the precision of a double are rounded before they are compared or
  printed, and a feed from \<open>10 ^ 21\<close> on is printed with an exponent.
\<close>

lemma long_numerals:
  "toFixed0 (Number ''1234567890123450000'') = ''1234567890123450112''"
  "toFixed0 (Number ''9007199254740993'') = ''9007199254740992''"
  "Number ''0.10000000000000001'' = Number ''0.1''"
  "js_ge (Some (Number ''0.1'')) (Some (Number ''0.10000000000000001''))"
  by (simp_all add: pattern_defs number_defs)

lemma large_feed:
  "toFixed0 (Number ''1000000000000000000000'') = ''1e+21''"
proof -
  have n: "Number ''1000000000000000000000'' = Decimal 1000000000000000000000 0"
    by (simp add: pattern_defs number_defs)
  have lo: "roundsTo 1000000000000000000000 1000000000000000000000"
    by (simp add: number_defs)
  have hi: "\<not> roundsTo 2000000000000000000000 1000000000000000000000"
    by (simp add: number_defs)
  have len: "length (digitsOf 1000000000000000000000) = 22"
    by (simp add: number_defs)
  have "shortest 17 1 1000000000000000000000 = 1000000000000000000000"
    by (subst shortest.simps) (simp add: lo hi len)
  then show ?thesis
    by (simp add: n toFixed0_def expForm_def digitsOf.simps digitChar_def)
qed

section \<open>Comment lines are left alone\<close>

lemma startsWith_iff: "startsWith s p \<longleftrightarrow> (\<exists>r. s = p @ r)"
proof
  assume "startsWith s p"
  then have "s = p @ drop (length p) s"
    by (metis append_take_drop_id startsWith_def)
  then show "\<exists>r. s = p @ r" ..
next
  assume "\<exists>r. s = p @ r"
  then show "startsWith s p" by (auto simp: startsWith_def)
qed

lemma blockStart_comment: "startsWith l blockStart \<Longrightarrow> startsWith l ''(''"
  by (auto simp: startsWith_iff blockStart_def)

lemma doneMarker_comment: "startsWith l doneMarker \<Longrightarrow> startsWith l ''(''"
  by (auto simp: startsWith_iff doneMarker_def)

lemma marked_done:
  assumes "startsWith l blockStart"
  shows "startsWith (''(OPTIMIZED: '' @ drop 1 l) doneMarker"
    and "\<not> startsWith (''(OPTIMIZED: '' @ drop 1 l) blockStart"
  using assms by (auto simp: startsWith_iff blockStart_def doneMarker_def)

lemma mark_eq:
  "startsWith l blockStart \<Longrightarrow> take 1 l @ ''OPTIMIZED: '' @ drop 1 l = ''(OPTIMIZED: '' @ drop 1 l"
  by (auto simp: startsWith_iff blockStart_def)

lemma promote_not_comment: "\<not> startsWith (promote line) ''(''"
  by (auto simp: promote_def startsWith_def split: option.splits)

lemma filter_update_same:
  assumes "i < length d" and "\<not> P (d ! i)" and "\<not> P y"
  shows "filter P (d[i := y]) = filter P d"
proof -
  have "filter P (d[i := y]) = filter P (take i d @ y # drop (Suc i) d)"
    using assms(1) by (simp add: upd_conv_take_nth_drop)
  also have "\<dots> = filter P (take i d @ d ! i # drop (Suc i) d)"
    using assms(2,3) by simp
  also have "\<dots> = filter P d"
    using assms(1) by (simp add: id_take_nth_drop [symmetric])
  finally show ?thesis .
qed

lemma filter_insert_same:
  assumes "\<not> P y"
  shows "filter P (insertFullLines d row [y]) = filter P d"
proof -
  have "filter P (insertFullLines d row [y]) = filter P (take row d) @ filter P (drop row d)"
    using assms by (simp add: insertFullLines_def)
  also have "\<dots> = filter P d"
    by (simp only: filter_append [symmetric] append_take_drop_id)
  finally show ?thesis .
qed

lemma rapid_comments:
  assumes "rapid line s = Inr s'" and "line = getLine (doc s) (lineIdx s)"
    and "\<not> startsWith line ''(''"
  shows "comments (doc s') = comments (doc s)"
proof -
  have upd: "comments (replaceRange (doc s) (lineIdx s) 0 (length line) (promote line)) = comments (doc s)"
  proof (cases "lineIdx s < length (doc s)")
    case True
    then have "doc s ! lineIdx s = line"
      using assms(2) by (simp add: getLine_def)
    then show ?thesis
      using True assms(3) promote_not_comment [of line]
      by (simp add: replaceRange_def comments_def filter_update_same)
  next
    case False
    then show ?thesis by (simp add: replaceRange_def)
  qed
  have ins: "comments (insertFullLines (doc s) (lineIdx s) [''G1 F'' @ t]) = comments (doc s)" for t
    unfolding comments_def by (rule filter_insert_same) (simp add: startsWith_def)
  show ?thesis
    using assms(1) upd ins
    by (auto simp: rapid_def Let_def split: if_splits option.splits)
qed

lemma body_comments:
  assumes "body delay s = Inr s'"
  shows "comments (doc s') = comments (doc s)"
proof -
  define line where "line = getLine (doc s) (lineIdx s)"
  define t where "t = (if startsWith line blockStart then s\<lparr>feedZ := None\<rparr> else s)"
  have t: "doc t = doc s" "lineIdx t = lineIdx s"
    by (simp_all add: t_def)
  have ins: "comments (insertFullLines (doc t) (lineIdx t + 1) [''G4 P'' @ u]) = comments (doc t)" for u
    unfolding comments_def by (rule filter_insert_same) (simp add: startsWith_def)
  have "s' = t \<or>
      s' = t\<lparr>doc := insertFullLines (doc t) (lineIdx t + 1) [''G4 P'' @ digitsOf delay],
              lineIdx := lineIdx t + 1, lineCount := lineCount t + 1\<rparr> \<or>
      (\<not> startsWith line ''('' \<and> rapid line t = Inr s')"
    using assms by (auto simp: body_def Let_def line_def t_def split: if_splits)
  then consider (comment) "s' = t"
    | (spindle) "s' = t\<lparr>doc := insertFullLines (doc t) (lineIdx t + 1) [''G4 P'' @ digitsOf delay],
                     lineIdx := lineIdx t + 1, lineCount := lineCount t + 1\<rparr>"
    | (motion) "\<not> startsWith line ''(''" "rapid line t = Inr s'"
    by blast
  then show ?thesis
  proof cases
    case comment
    then show ?thesis by (simp add: t)
  next
    case spindle
    then show ?thesis using ins by (simp add: t)
  next
    case motion
    then show ?thesis using rapid_comments [of line t s'] by (simp add: t line_def)
  qed
qed

lemma loop2_comments: "comments (doc (snd (loop2 delay s))) = comments (doc s)"
proof (induction delay s rule: loop2.induct)
  case (1 delay s)
  show ?case
  proof (cases "lineIdx s < lineCount s")
    case False
    then show ?thesis by (simp add: loop2.simps [of delay s])
  next
    case True
    show ?thesis
    proof (cases "body delay s")
      case (Inl e)
      then show ?thesis using True by (simp add: loop2.simps [of delay s])
    next
      case (Inr s')
      then have "comments (doc (snd (loop2 delay s))) =
          comments (doc (snd (loop2 delay (s'\<lparr>lineIdx := lineIdx s' + 1\<rparr>))))"
        using True by (simp add: loop2.simps [of delay s])
      also have "\<dots> = comments (doc (s'\<lparr>lineIdx := lineIdx s' + 1\<rparr>))"
        using "1.IH" [OF True Inr] .
      also have "\<dots> = comments (doc s)"
        using body_comments [OF Inr] by simp
      finally show ?thesis .
    qed
  qed
qed

lemma firstLoop_Some:
  assumes "firstLoop d k = Some i"
  shows "\<exists>pre l post. d = pre @ l # post \<and> i = k + length pre \<and> startsWith l blockStart
      \<and> list_all (\<lambda>x. \<not> startsWith x blockStart \<and> \<not> startsWith x doneMarker) pre"
  using assms
proof (induction d arbitrary: k)
  case Nil
  then show ?case by simp
next
  case (Cons a d)
  show ?case
  proof (cases "startsWith a blockStart")
    case True
    then have "i = k" using Cons.prems by simp
    then have "a # d = [] @ a # d \<and> i = k + length ([] :: string list) \<and> startsWith a blockStart
      \<and> list_all (\<lambda>x. \<not> startsWith x blockStart \<and> \<not> startsWith x doneMarker) []"
      using True by simp
    then show ?thesis by blast
  next
    case False
    then have nd: "\<not> startsWith a doneMarker" and rec: "firstLoop d (k + 1) = Some i"
      using Cons.prems by (auto split: if_splits)
    from Cons.IH [OF rec] obtain pre l post where
      "d = pre @ l # post" "i = k + 1 + length pre" "startsWith l blockStart"
      "list_all (\<lambda>x. \<not> startsWith x blockStart \<and> \<not> startsWith x doneMarker) pre"
      by blast
    then have "a # d = (a # pre) @ l # post \<and> i = k + length (a # pre) \<and> startsWith l blockStart
      \<and> list_all (\<lambda>x. \<not> startsWith x blockStart \<and> \<not> startsWith x doneMarker) (a # pre)"
      using False nd by simp
    then show ?thesis by blast
  qed
qed

lemma firstLoop_comments: "(firstLoop d k = None) = (firstLoop (comments d) j = None)"
proof (induction d arbitrary: k j)
  case Nil
  then show ?case by (simp add: comments_def)
next
  case (Cons a d)
  show ?case
  proof (cases "startsWith a ''(''")
    case True
    then show ?thesis
      using Cons.IH [of "k + 1" "j + 1"] by (simp add: comments_def)
  next
    case False
    then have "\<not> startsWith a blockStart" "\<not> startsWith a doneMarker"
      using blockStart_comment doneMarker_comment by blast+
    then show ?thesis
      using False Cons.IH [of "k + 1" j] by (simp add: comments_def)
  qed
qed

lemma firstLoop_marked:
  assumes "list_all (\<lambda>x. \<not> startsWith x blockStart \<and> \<not> startsWith x doneMarker) pre"
    and "startsWith l doneMarker" and "\<not> startsWith l blockStart"
  shows "firstLoop (pre @ l # post) k = None"
  using assms by (induction pre arbitrary: k) simp_all

lemma comments_append: "comments (xs @ ys) = comments xs @ comments ys"
  by (simp add: comments_def)

lemma comments_Cons: "startsWith l ''('' \<Longrightarrow> comments (l # ys) = l # comments ys"
  by (simp add: comments_def)

lemma marked_decomposition:
  assumes "firstLoop d 0 = Some i"
  shows "\<exists>pre l post. comments d = pre @ l # post \<and> startsWith l blockStart
      \<and> list_all (\<lambda>x. \<not> startsWith x blockStart \<and> \<not> startsWith x doneMarker) pre
      \<and> comments (replaceRange d i 1 1 ''OPTIMIZED: '') = pre @ (''(OPTIMIZED: '' @ drop 1 l) # post"
proof -
  from firstLoop_Some [OF assms] obtain pre l post where
    d: "d = pre @ l # post" and i: "i = length pre" and l: "startsWith l blockStart"
    and pre: "list_all (\<lambda>x. \<not> startsWith x blockStart \<and> \<not> startsWith x doneMarker) pre"
    by auto
  let ?m = "''(OPTIMIZED: '' @ drop 1 l"
  have m: "startsWith ?m ''(''"
    by (simp add: startsWith_def)
  have "replaceRange d i 1 1 ''OPTIMIZED: '' = pre @ ?m # post"
    using mark_eq [OF l] by (simp add: replaceRange_def d i)
  then have 1: "comments (replaceRange d i 1 1 ''OPTIMIZED: '') = comments pre @ ?m # comments post"
    using m by (simp add: comments_append comments_Cons)
  have 2: "comments d = comments pre @ l # comments post"
    using blockStart_comment [OF l] by (simp add: d comments_append comments_Cons)
  have 3: "list_all (\<lambda>x. \<not> startsWith x blockStart \<and> \<not> startsWith x doneMarker) (comments pre)"
    using pre by (simp add: comments_def list_all_iff)
  show ?thesis using 1 2 3 l by blast
qed

text \<open>
  Claim C10. Every comment line other than the first block-start line, which receives
  the \<^verbatim>\<open>OPTIMIZED: \<close> prefix, has the same text after the rewrite as before: the
  comment lines of the result are the comment lines of the program, in the same order,
  with that one line marked. This holds for every program and every delay, also when the
  call ends with an exception.
\<close>

theorem comments_unchanged:
  "comments (document (OptimizeGCode delay d)) = comments d \<or>
   (\<exists>pre l post. comments d = pre @ l # post \<and> startsWith l blockStart
      \<and> list_all (\<lambda>x. \<not> startsWith x blockStart) pre
      \<and> comments (document (OptimizeGCode delay d)) = pre @ (''(OPTIMIZED: '' @ drop 1 l) # post)"
proof (cases "firstLoop d 0")
  case None
  then show ?thesis by (simp add: OptimizeGCode_def)
next
  case (Some i)
  from marked_decomposition [OF Some] obtain pre l post where
    1: "comments d = pre @ l # post" and 2: "startsWith l blockStart"
    and 3: "list_all (\<lambda>x. \<not> startsWith x blockStart \<and> \<not> startsWith x doneMarker) pre"
    and 4: "comments (replaceRange d i 1 1 ''OPTIMIZED: '') = pre @ (''(OPTIMIZED: '' @ drop 1 l) # post"
    by blast
  have "comments (document (OptimizeGCode delay d)) = pre @ (''(OPTIMIZED: '' @ drop 1 l) # post"
    using Some 4 by (simp add: OptimizeGCode_def finish_def initial_def loop2_comments)
  moreover have "list_all (\<lambda>x. \<not> startsWith x blockStart) pre"
    using 3 by (simp add: list_all_iff)
  ultimately show ?thesis using 1 2 by blast
qed

text \<open>
  Claim C1. A second run on a program that has been processed is a no-op: it returns at
  once, without an edit, a log line or an exception, so the lines after two runs are the
  lines after one.
\<close>

theorem second_run_is_noop:
  "OptimizeGCode delay (document (OptimizeGCode delay d)) =
     \<lparr>document = document (OptimizeGCode delay d), logged = False, thrown = None\<rparr>"
proof -
  have "firstLoop (document (OptimizeGCode delay d)) 0 = None"
  proof (cases "firstLoop d 0")
    case None
    then show ?thesis by (simp add: OptimizeGCode_def)
  next
    case (Some i)
    from marked_decomposition [OF Some] obtain pre l post where
      2: "startsWith l blockStart"
      and 3: "list_all (\<lambda>x. \<not> startsWith x blockStart \<and> \<not> startsWith x doneMarker) pre"
      and 4: "comments (replaceRange d i 1 1 ''OPTIMIZED: '') = pre @ (''(OPTIMIZED: '' @ drop 1 l) # post"
      by blast
    let ?m = "''(OPTIMIZED: '' @ drop 1 l"
    have m: "startsWith ?m doneMarker" "\<not> startsWith ?m blockStart"
      using marked_done [OF 2] by simp_all
    have "comments (document (OptimizeGCode delay d)) = pre @ ?m # post"
      using Some 4 by (simp add: OptimizeGCode_def finish_def initial_def loop2_comments)
    then have "firstLoop (comments (document (OptimizeGCode delay d))) 0 = None"
      using firstLoop_marked [OF 3 m] by simp
    then show ?thesis
      using firstLoop_comments [of "document (OptimizeGCode delay d)" 0 0] by simp
  qed
  then show ?thesis by (simp add: OptimizeGCode_def)
qed
section \<open>Tracked values\<close>

lemma lastSpecified_snoc:
  "lastSpecified w (ls @ [l]) = (case w l of None \<Rightarrow> lastSpecified w ls | Some v \<Rightarrow> Some v)"
  by (simp add: lastSpecified_def List.map_filter_def split: option.splits)

lemma track_values:
  "curG (track line s) = (case wordG line of None \<Rightarrow> curG s | Some v \<Rightarrow> Some v)"
  "curZ (track line s) = (case wordZ line of None \<Rightarrow> curZ s | Some v \<Rightarrow> Some v)"
  "curF (track line s) = (case wordF line of None \<Rightarrow> curF s | Some v \<Rightarrow> Some v)"
  by (simp_all add: track_def Let_def split: option.splits)

lemma rapid_effect:
  assumes "rapid line s = Inr s'"
  shows "curG s' = curG (track line s) \<and> curZ s' = curZ (track line s)
      \<and> curF s' = curF (track line s) \<and> lineIdx s' = lineIdx s
      \<and> ((lineCount s' = lineCount s \<and> (doc s' = doc s \<or> (\<exists>y. doc s' = replaceRange (doc s) (lineIdx s) 0 (length line) y)))
         \<or> (restoreF s \<and> \<not> restoreF s' \<and> lineCount s' = lineCount s + 1
            \<and> (\<exists>y. doc s' = insertFullLines (doc s) (lineIdx s) [y])))"
  using assms
  by (auto simp: rapid_def Let_def split: if_splits option.splits)

lemma agrees_track: "agrees s ls \<Longrightarrow> agrees (track line s) (ls @ [line])"
  by (auto simp: agrees_def track_values lastSpecified_snoc split: option.splits)

lemma agrees_track_again: "agrees s (ls @ [line]) \<Longrightarrow> agrees (track line s) (ls @ [line])"
  by (auto simp: agrees_def track_values lastSpecified_snoc split: option.splits)

lemma agrees_frame [simp]:
  "agrees (s\<lparr>doc := x\<rparr>) ls = agrees s ls"
  "agrees (s\<lparr>lineIdx := i\<rparr>) ls = agrees s ls"
  "agrees (s\<lparr>lineCount := n\<rparr>) ls = agrees s ls"
  "agrees (s\<lparr>feedZ := z\<rparr>) ls = agrees s ls"
  "agrees (s\<lparr>restoreF := b\<rparr>) ls = agrees s ls"
  "agrees (s\<lparr>optimized := b\<rparr>) ls = agrees s ls"
  by (simp_all add: agrees_def)

lemma drop_Suc_eq: "drop i xs = drop k ys \<Longrightarrow> drop (Suc i) xs = drop (Suc k) ys"
  by (metis drop_Suc tl_drop)

lemma nth_drop_eq:
  assumes "drop i xs = drop k ys" and "i < length xs"
  shows "k < length ys \<and> xs ! i = ys ! k"
proof -
  have ne: "drop k ys \<noteq> []"
    using assms by (metis drop_eq_Nil not_le)
  then have k: "k < length ys" by simp
  have "xs ! i = hd (drop i xs)"
    using assms(2) by (simp add: hd_drop_conv_nth)
  also have "\<dots> = ys ! k"
    using k assms(1) by (simp add: hd_drop_conv_nth)
  finally show ?thesis using k by simp
qed

lemma drop_insert_after:
  "i < length xs \<Longrightarrow> drop (Suc (Suc i)) (insertFullLines xs (Suc i) [y]) = drop (Suc i) xs"
  by (simp add: insertFullLines_def min_def)

lemma drop_insert_before:
  "i \<le> length xs \<Longrightarrow> drop (Suc i) (insertFullLines xs i [y]) = drop i xs"
  by (simp add: insertFullLines_def min_def)

lemma drop_replace: "drop (Suc i) (replaceRange xs i a b y) = drop (Suc i) xs"
  by (simp add: replaceRange_def)

lemma length_insert [simp]: "length (insertFullLines xs i [y]) = Suc (length xs)"
  by (simp add: insertFullLines_def)

lemma length_replace [simp]: "length (replaceRange xs i a b y) = length xs"
  by (simp add: replaceRange_def)

lemma body_cases:
  assumes "body delay s = Inr s'" and "line = getLine (doc s) (lineIdx s)"
    and "t = (if startsWith line blockStart then s\<lparr>feedZ := None\<rparr> else s)"
  shows "(\<not> tracked delay line \<and> s' = t) \<or>
      (\<not> tracked delay line \<and>
       s' = t\<lparr>doc := insertFullLines (doc t) (lineIdx t + 1) [''G4 P'' @ digitsOf delay],
              lineIdx := lineIdx t + 1, lineCount := lineCount t + 1\<rparr>) \<or>
      (tracked delay line \<and> rapid line t = Inr s')"
  using assms by (auto simp: body_def Let_def tracked_def split: if_splits)

lemma examine_line:
  assumes b: "body delay s = Inr s'"
    and len: "lineCount s = length (doc s)" and lt: "lineIdx s < lineCount s"
    and rest: "drop (lineIdx s) (doc s) = drop j d"
    and vals: "if tracked delay (d ! j) then agrees (track (d ! j) s) (filter (tracked delay) (take (Suc j) d))
               else agrees s (filter (tracked delay) (take (Suc j) d))"
  shows "stickyInv delay d (Suc j) (s'\<lparr>lineIdx := lineIdx s' + 1\<rparr>)"
proof -
  define i where "i = lineIdx s"
  define line where "line = getLine (doc s) i"
  define t where "t = (if startsWith line blockStart then s\<lparr>feedZ := None\<rparr> else s)"
  have i: "i < length (doc s)"
    using lt len by (simp add: i_def)
  have nth: "j < length d \<and> doc s ! i = d ! j"
    using rest i unfolding i_def by (rule nth_drop_eq)
  then have j: "j < length d" ..
  have "line = doc s ! i"
    using i by (simp add: line_def getLine_def)
  with nth have line: "line = d ! j"
    by simp
  have next_rest: "drop (Suc i) (doc s) = drop (Suc j) d"
    using rest unfolding i_def by (rule drop_Suc_eq)
  have t: "doc t = doc s" "lineIdx t = i" "lineCount t = lineCount s" "restoreF t = restoreF s"
    "curG t = curG s" "curZ t = curZ s" "curF t = curF s"
    by (simp_all add: t_def i_def)
  have tr: "curG (track line t) = curG (track line s)" "curZ (track line t) = curZ (track line s)"
    "curF (track line t) = curF (track line s)"
    by (simp_all add: track_values t split: option.splits)
  from body_cases [OF b line_def [unfolded i_def] t_def]
  consider (skip) "\<not> tracked delay line" "s' = t"
    | (spindle) "\<not> tracked delay line"
        "s' = t\<lparr>doc := insertFullLines (doc t) (lineIdx t + 1) [''G4 P'' @ digitsOf delay],
               lineIdx := lineIdx t + 1, lineCount := lineCount t + 1\<rparr>"
    | (motion) "tracked delay line" "rapid line t = Inr s'"
    by blast
  then show ?thesis
  proof cases
    case skip
    then have "agrees s (filter (tracked delay) (take (Suc j) d))"
      using vals line by simp
    then have "agrees s' (filter (tracked delay) (take (Suc j) d))"
      using skip(2) by (simp add: agrees_def t)
    then show ?thesis
      using skip(2) j next_rest len by (simp add: stickyInv_def t)
  next
    case spindle
    then have "agrees s (filter (tracked delay) (take (Suc j) d))"
      using vals line by simp
    then have "agrees s' (filter (tracked delay) (take (Suc j) d))"
      using spindle(2) by (simp add: agrees_def t)
    moreover have "drop (Suc (Suc i)) (doc s') = drop (Suc j) d"
      using spindle(2) i next_rest by (simp add: t drop_insert_after)
    ultimately show ?thesis
      using spindle(2) j len by (simp add: stickyInv_def t)
  next
    case motion
    from rapid_effect [OF motion(2)]
    have v: "curG s' = curG (track line s)" "curZ s' = curZ (track line s)"
        "curF s' = curF (track line s)" and idx: "lineIdx s' = i"
      and eff: "(lineCount s' = lineCount s \<and>
           (doc s' = doc s \<or> (\<exists>y. doc s' = replaceRange (doc s) i 0 (length line) y)))
         \<or> (restoreF s \<and> \<not> restoreF s' \<and> lineCount s' = lineCount s + 1
            \<and> (\<exists>y. doc s' = insertFullLines (doc s) i [y]))"
      by (simp_all add: t tr)
    have "agrees (track line s) (filter (tracked delay) (take (Suc j) d))"
      using vals motion(1) line by simp
    then have a: "agrees s' (filter (tracked delay) (take (Suc j) d))"
      using v by (simp add: agrees_def)
    from eff show ?thesis
    proof
      assume e: "lineCount s' = lineCount s \<and>
           (doc s' = doc s \<or> (\<exists>y. doc s' = replaceRange (doc s) i 0 (length line) y))"
      then have "length (doc s') = length (doc s)" and "drop (Suc i) (doc s') = drop (Suc j) d"
        using next_rest by (auto simp: drop_replace)
      then show ?thesis
        using a e j len idx by (simp add: stickyInv_def)
    next
      assume e: "restoreF s \<and> \<not> restoreF s' \<and> lineCount s' = lineCount s + 1
            \<and> (\<exists>y. doc s' = insertFullLines (doc s) i [y])"
      then have "length (doc s') = Suc (length (doc s))" and "drop (Suc i) (doc s') = drop j d"
        using rest i by (auto simp: drop_insert_before i_def)
      then show ?thesis
        using a e j len idx by (simp add: stickyInv_def)
    qed
  qed
qed

lemma filter_take_Suc:
  assumes "j < length d"
  shows "filter P (take (Suc j) d) = filter P (take j d) @ (if P (d ! j) then [d ! j] else [])"
  using assms by (simp add: take_Suc_conv_app_nth)

lemma inv_step:
  assumes inv: "stickyInv delay d k s" and lt: "lineIdx s < lineCount s"
    and b: "body delay s = Inr s'"
  shows "\<exists>k'. stickyInv delay d k' (s'\<lparr>lineIdx := lineIdx s' + 1\<rparr>)"
proof -
  have len: "lineCount s = length (doc s)"
    and a: "agrees s (filter (tracked delay) (take k d))"
    and pos: "drop (lineIdx s) (doc s) = drop k d
         \<or> (0 < k \<and> drop (lineIdx s) (doc s) = drop (k - 1) d)"
    using inv by (simp_all add: stickyInv_def)
  have i: "lineIdx s < length (doc s)"
    using lt len by simp
  from pos show ?thesis
  proof
    assume rest: "drop (lineIdx s) (doc s) = drop k d"
    have k: "k < length d"
      using nth_drop_eq [OF rest i] by simp
    have "if tracked delay (d ! k)
          then agrees (track (d ! k) s) (filter (tracked delay) (take (Suc k) d))
          else agrees s (filter (tracked delay) (take (Suc k) d))"
      using a agrees_track [of s "filter (tracked delay) (take k d)" "d ! k"]
      by (simp add: filter_take_Suc [OF k])
    from examine_line [OF b len lt rest this] show ?thesis ..
  next
    assume "0 < k \<and> drop (lineIdx s) (doc s) = drop (k - 1) d"
    then obtain j where k: "k = Suc j" and rest: "drop (lineIdx s) (doc s) = drop j d"
      by (cases k) auto
    have j: "j < length d"
      using nth_drop_eq [OF rest i] by simp
    have a': "agrees s (filter (tracked delay) (take (Suc j) d))"
      using a k by simp
    have "if tracked delay (d ! j)
          then agrees (track (d ! j) s) (filter (tracked delay) (take (Suc j) d))
          else agrees s (filter (tracked delay) (take (Suc j) d))"
    proof (cases "tracked delay (d ! j)")
      case True
      then have "filter (tracked delay) (take (Suc j) d) =
          filter (tracked delay) (take j d) @ [d ! j]"
        by (simp add: filter_take_Suc [OF j])
      then show ?thesis
        using True a' agrees_track_again [of s "filter (tracked delay) (take j d)" "d ! j"]
        by simp
    next
      case False
      then show ?thesis using a' by simp
    qed
    from examine_line [OF b len lt rest this] show ?thesis ..
  qed
qed

lemma steps_inv:
  assumes "stickyInv delay d k s" and "steps n delay s = (None, s')"
  shows "\<exists>k'. stickyInv delay d k' s'"
  using assms
proof (induction n arbitrary: s k)
  case 0
  then show ?case by auto
next
  case (Suc n)
  show ?case
  proof (cases "lineIdx s < lineCount s")
    case False
    then have "s' = s" using Suc.prems(2) by simp
    then show ?thesis using Suc.prems(1) by blast
  next
    case True
    show ?thesis
    proof (cases "body delay s")
      case (Inl e)
      then show ?thesis using True Suc.prems(2) by simp
    next
      case (Inr t)
      then have run: "steps n delay (t\<lparr>lineIdx := lineIdx t + 1\<rparr>) = (None, s')"
        using True Suc.prems(2) by simp
      from inv_step [OF Suc.prems(1) True Inr] obtain k' where
        "stickyInv delay d k' (t\<lparr>lineIdx := lineIdx t + 1\<rparr>)" ..
      from Suc.IH [OF this run] show ?thesis .
    qed
  qed
qed

lemma initial_inv: "stickyInv delay d 0 (initial d (length d))"
  by (simp add: stickyInv_def initial_def agrees_def lastSpecified_def List.map_filter_def)

lemma steps_loop2: "loopMeasure s \<le> n \<Longrightarrow> steps n delay s = loop2 delay s"
proof (induction n arbitrary: s)
  case 0
  then have "\<not> lineIdx s < lineCount s"
    by (auto simp: loopMeasure_def)
  then show ?case by (simp add: loop2.simps [of delay s])
next
  case (Suc n)
  show ?case
  proof (cases "lineIdx s < lineCount s")
    case False
    then show ?thesis by (simp add: loop2.simps [of delay s])
  next
    case True
    show ?thesis
    proof (cases "body delay s")
      case (Inl e)
      then show ?thesis using True by (simp add: loop2.simps [of delay s])
    next
      case (Inr t)
      have "loopMeasure (t\<lparr>lineIdx := lineIdx t + 1\<rparr>) \<le> n"
        using body_decreases [OF True Inr] Suc.prems by simp
      from Suc.IH [OF this] show ?thesis
        using True Inr by (simp add: loop2.simps [of delay s])
    qed
  qed
qed

lemma loop2_ends: "loop2 delay s = (None, s') \<Longrightarrow> lineCount s' \<le> lineIdx s'"
proof (induction delay s rule: loop2.induct)
  case (1 delay s)
  show ?case
  proof (cases "lineIdx s < lineCount s")
    case False
    then show ?thesis using "1.prems" by (simp add: loop2.simps [of delay s])
  next
    case True
    show ?thesis
    proof (cases "body delay s")
      case (Inl e)
      then show ?thesis using True "1.prems" by (simp add: loop2.simps [of delay s])
    next
      case (Inr t)
      then have "loop2 delay (t\<lparr>lineIdx := lineIdx t + 1\<rparr>) = (None, s')"
        using True "1.prems" by (simp add: loop2.simps [of delay s])
      from "1.IH" [OF True Inr this] show ?thesis .
    qed
  qed
qed

lemma steps_values:
  assumes "steps n delay (initial d (length d)) = (None, s)"
  shows "\<exists>k\<le>length d.
      curG s = lastSpecified wordG (filter (tracked delay) (take k d))
    \<and> curZ s = lastSpecified wordZ (filter (tracked delay) (take k d))
    \<and> curF s = lastSpecified wordF (filter (tracked delay) (take k d))
    \<and> (drop (lineIdx s) (doc s) = drop k d
       \<or> (0 < k \<and> drop (lineIdx s) (doc s) = drop (k - 1) d))
    \<and> (lineCount s \<le> lineIdx s \<longrightarrow> k = length d)"
proof -
  from steps_inv [OF initial_inv assms] obtain k where inv: "stickyInv delay d k s" ..
  then have k: "k \<le> length d" and len: "lineCount s = length (doc s)"
    and pos: "drop (lineIdx s) (doc s) = drop k d
       \<or> (0 < k \<and> drop (lineIdx s) (doc s) = drop (k - 1) d)"
    by (simp_all add: stickyInv_def)
  have "k = length d" if "lineCount s \<le> lineIdx s"
  proof -
    have "drop (lineIdx s) (doc s) = []"
      using that len by simp
    then have "drop k d = [] \<or> (0 < k \<and> drop (k - 1) d = [])"
      using pos by auto
    then show ?thesis using k by auto
  qed
  then show ?thesis
    using inv by (auto simp: stickyInv_def agrees_def)
qed

text \<open>
  Claim C7, as amended. At every iteration of the loop over a document \<open>d\<close>, the tracked
  motion mode, Z and feed are the values of the last G, Z and F word matched on a tracked
  line among the first \<open>k\<close> lines of \<open>d\<close>, or absent if none matched, where \<open>k\<close> is the
  line the loop stands at (or the line after it, when a feed restore has just been
  inserted and the loop examines line \<open>k - 1\<close> once more); when the loop has ended without
  an exception, they are the last values of the whole document. The value of a word is
  \<^verbatim>\<open>Number\<close> of the matched text, so a matched text that is no number is tracked as
  \<^verbatim>\<open>NaN\<close>.
\<close>

theorem sticky_state:
  "(steps n delay (initial d (length d)) = (None, s) \<longrightarrow>
      (\<exists>k\<le>length d.
          curG s = lastSpecified wordG (filter (tracked delay) (take k d))
        \<and> curZ s = lastSpecified wordZ (filter (tracked delay) (take k d))
        \<and> curF s = lastSpecified wordF (filter (tracked delay) (take k d))
        \<and> (drop (lineIdx s) (doc s) = drop k d
           \<or> (0 < k \<and> drop (lineIdx s) (doc s) = drop (k - 1) d))))
   \<and> (loop2 delay (initial d (length d)) = (None, s) \<longrightarrow>
          curG s = lastSpecified wordG (filter (tracked delay) d)
        \<and> curZ s = lastSpecified wordZ (filter (tracked delay) d)
        \<and> curF s = lastSpecified wordF (filter (tracked delay) d))"
proof (intro conjI impI)
  assume "steps n delay (initial d (length d)) = (None, s)"
  from steps_values [OF this]
  show "\<exists>k\<le>length d.
          curG s = lastSpecified wordG (filter (tracked delay) (take k d))
        \<and> curZ s = lastSpecified wordZ (filter (tracked delay) (take k d))
        \<and> curF s = lastSpecified wordF (filter (tracked delay) (take k d))
        \<and> (drop (lineIdx s) (doc s) = drop k d
           \<or> (0 < k \<and> drop (lineIdx s) (doc s) = drop (k - 1) d))"
    by blast
next
  assume run: "loop2 delay (initial d (length d)) = (None, s)"
  then have "steps (loopMeasure (initial d (length d))) delay (initial d (length d)) = (None, s)"
    by (simp add: steps_loop2)
  from steps_values [OF this] loop2_ends [OF run] obtain k where
    "curG s = lastSpecified wordG (filter (tracked delay) (take k d))"
    "curZ s = lastSpecified wordZ (filter (tracked delay) (take k d))"
    "curF s = lastSpecified wordF (filter (tracked delay) (take k d))"
    "k = length d"
    by blast
  then show "curG s = lastSpecified wordG (filter (tracked delay) d)"
    "curZ s = lastSpecified wordZ (filter (tracked delay) d)"
    "curF s = lastSpecified wordF (filter (tracked delay) d)"
    by simp_all
qed

section \<open>The scenario of the specification\<close>

text \<open>
  Claim C2, counterexample. After one run on the four-line program of the scenario the
  fourth line still reads \<^verbatim>\<open>G1 Z0 X20\<close>: it is not rewritten to \<^verbatim>\<open>G0\<close>.
\<close>

theorem fourth_line_stays_G1:
  "document (OptimizeGCode SPINDLE_START_DELAY
     [''(When using Fusion 360 for Personal Use...)'', ''G1 Z-5 F100'', ''G1 Z-5 X10'',
      ''G1 Z0 X20'']) ! 3 = ''G1 Z0 X20''"
  by (simp add: run_defs pattern_defs number_defs)

text \<open>
  Claim C2, as amended. On the four-line program of the scenario the run marks the first
  line with \<^verbatim>\<open>OPTIMIZED: \<close> and leaves the other three as they are; nothing is promoted
  and nothing is logged. The plunge height \<^verbatim>\<open>feedZ\<close> is set only by a \<^verbatim>\<open>G1\<close> line whose Z is
  below a Z known from an earlier line, and the first Z word of this program has no
  predecessor, so \<^verbatim>\<open>feedZ\<close> stays unset and the second rule never applies.
\<close>

theorem scenario_only_marks:
  "OptimizeGCode SPINDLE_START_DELAY
     [''(When using Fusion 360 for Personal Use...)'', ''G1 Z-5 F100'', ''G1 Z-5 X10'',
      ''G1 Z0 X20'']
   = \<lparr>document =
        [''(OPTIMIZED: When using Fusion 360 for Personal Use...)'', ''G1 Z-5 F100'',
         ''G1 Z-5 X10'', ''G1 Z0 X20''],
      logged = False, thrown = None\<rparr>"
  by (simp add: run_defs pattern_defs number_defs)

text \<open>
  With a line before the plunge that makes the height known, the rule applies: the move up
  to Z0 is promoted and the feed is restored before the next line.
\<close>

lemma scenario_with_known_height:
  "OptimizeGCode SPINDLE_START_DELAY
     [''(When using Fusion 360 for Personal Use...)'', ''G0 Z5'', ''G1 Z-5 F100'',
      ''G1 Z-6 X10'', ''G1 Z0 X20'', ''G1 Z-6 X30'']
   = \<lparr>document =
        [''(OPTIMIZED: When using Fusion 360 for Personal Use...)'', ''G0 Z5'',
         ''G1 Z-5 F100'', ''G1 Z-6 X10'', ''G0 Z0 X20'', ''G1 F100'', ''G1 Z-6 X30''],
      logged = True, thrown = None\<rparr>"
  by (simp add: run_defs pattern_defs number_defs)

section \<open>The tool comment\<close>

text \<open>\<^verbatim>\<open>GetToolInfo\<close> returns the fields of the first line that starts with \<^verbatim>\<open>(T\<close>.\<close>

lemma GetToolInfo_first:
  assumes "list_all (\<lambda>x. \<not> startsWith x ''(T'') pre" and "startsWith l ''(T''"
  shows "GetToolInfo (pre @ l # post) = Some \<lparr>toolName = toolNameOf l, minZ = minZOf l\<rparr>"
  using assms by (induction pre) simp_all

lemma GetToolInfo_none:
  assumes "list_all (\<lambda>x. \<not> startsWith x ''(T'') d"
  shows "GetToolInfo d = None"
  using assms by (induction d) simp_all

lemma router_line:
  "startsWith ''(T1 Router ZMIN=-10.5)'' ''(T''"
  "toolNameOf ''(T1 Router ZMIN=-10.5)'' = ''(Router10.5)''"
  "minZOf ''(T1 Router ZMIN=-10.5)'' = Some (Decimal (- 105) 1)"
  by (simp_all add: toolNameOf_def minZOf_def pattern_defs number_defs)

text \<open>
  The two replacements fit the tool comment the CAM generator writes, where the minimum Z
  stands between two dashes.
\<close>

lemma fusion_tool_line:
  "GetToolInfo [''(T1 D=6.35 CR=0 - ZMIN=-10.5 - flat end mill)'']
   = Some \<lparr>toolName = ''(D=6.35 CR=0 - flat end mill)'', minZ = Some (Decimal (- 105) 1)\<rparr>"
  by (simp add: toolNameOf_def minZOf_def pattern_defs number_defs)

text \<open>
  Claim C3, counterexample. The tool name read from \<^verbatim>\<open>(T1 Router ZMIN=-10.5)\<close> is
  \<^verbatim>\<open>(Router10.5)\<close>, not \<^verbatim>\<open>Router\<close>.
\<close>

theorem router_name_keeps_parentheses:
  "map_option toolName (GetToolInfo [''(T1 Router ZMIN=-10.5)'']) = Some ''(Router10.5)''
   \<and> map_option toolName (GetToolInfo [''(T1 Router ZMIN=-10.5)'']) \<noteq> Some ''Router''"
  by (simp add: toolNameOf_def minZOf_def pattern_defs number_defs)

text \<open>
  Claim C3, as amended. On a program whose first line beginning with \<^verbatim>\<open>(T\<close> is
  \<^verbatim>\<open>(T1 Router ZMIN=-10.5)\<close>, \<^verbatim>\<open>GetToolInfo\<close> returns the tool name \<^verbatim>\<open>(Router10.5)\<close> and the
  minimum Z -10.5: the name is the whole line, parentheses included, without its first
  \<^verbatim>\<open>T<digits> \<close> and without the stretch from the first \<^verbatim>\<open> ZMIN\<close> to the last minus sign of
  the line. On a program with no line beginning with \<^verbatim>\<open>(T\<close> it returns nothing.
\<close>

theorem tool_comment_fields:
  assumes "list_all (\<lambda>x. \<not> startsWith x ''(T'') pre"
  shows "GetToolInfo (pre @ ''(T1 Router ZMIN=-10.5)'' # post)
           = Some \<lparr>toolName = ''(Router10.5)'', minZ = Some (Decimal (- 105) 1)\<rparr>
         \<and> GetToolInfo pre = None"
  using GetToolInfo_first [OF assms router_line(1), of post] GetToolInfo_none [OF assms]
  by (simp only: router_line simp_thms)

text \<open>Claim C3, witness: a program with two lines before the tool comment.\<close>

theorem tool_comment_fields_witness:
  "list_all (\<lambda>x. \<not> startsWith x ''(T'') [''G21'', ''(Setup)'']
   \<and> GetToolInfo ([''G21'', ''(Setup)''] @ ''(T1 Router ZMIN=-10.5)'' # [''(T2 Drill ZMIN=-3)''])
           = Some \<lparr>toolName = ''(Router10.5)'', minZ = Some (Decimal (- 105) 1)\<rparr>
   \<and> GetToolInfo [''G21'', ''(Setup)''] = None"
proof -
  have pre: "list_all (\<lambda>x. \<not> startsWith x ''(T'') [''G21'', ''(Setup)'']"
    by (simp add: startsWith_def)
  from pre tool_comment_fields [OF pre, of "[''(T2 Drill ZMIN=-3)'']"] show ?thesis
    by (rule conjI)
qed

section \<open>Defects\<close>

text \<open>
  Claim C4. The claim says that no program makes the rewrite raise an exception. On this
  program no F word stands before the promoted line \<^verbatim>\<open>G1 Z0\<close>, so at the next line the
  feed restore evaluates \<^verbatim>\<open>curF.toFixed(0)\<close> with \<^verbatim>\<open>curF\<close> undefined: the call ends with a
  TypeError, the document marked and half rewritten.
\<close>

theorem feed_restore_throws:
  "OptimizeGCode SPINDLE_START_DELAY
     [''(When using Fusion 360 for Personal Use)'', ''G0 Z5'', ''G1 Z-5'', ''G1 Z0'',
      ''G1 Z-1'']
   = \<lparr>document =
        [''(OPTIMIZED: When using Fusion 360 for Personal Use)'', ''G0 Z5'', ''G1 Z-5'',
         ''G0 Z0'', ''G1 Z-1''],
      logged = False, thrown = Some TypeError\<rparr>"
  by (simp add: run_defs pattern_defs number_defs)

text \<open>
  The feed restore adds one to \<^verbatim>\<open>lineCount\<close> and leaves \<^verbatim>\<open>lineIdx\<close> alone, so after the
  \<^verbatim>\<open>lineIdx++\<close> of the loop the next line examined is the line just examined.
\<close>

lemma feed_restore_same_line:
  assumes "rapid line s = Inr s'" and "lineCount s' = lineCount s + 1"
    and "lineIdx s < length (doc s)"
  shows "getLine (doc s') (lineIdx s' + 1) = getLine (doc s) (lineIdx s)"
proof -
  from rapid_effect [OF assms(1)] assms(2)
  obtain y where "doc s' = insertFullLines (doc s) (lineIdx s) [y]" and "lineIdx s' = lineIdx s"
    by auto
  then show ?thesis
    using assms(3) by (simp add: getLine_def insertFullLines_def nth_append min_def)
qed

text \<open>
  Claim C5. The claim says that every line is examined exactly once. On this program the
  line \<^verbatim>\<open>G1 Z-3 X30\<close> is examined twice: after five iterations the restore line stands at
  row 4 and the loop stands at row 5, which holds \<^verbatim>\<open>G1 Z-3 X30\<close> again; the sixth iteration
  compares its Z with itself and promotes this downward move to \<^verbatim>\<open>G0\<close>.
\<close>

theorem restored_line_examined_twice:
  "steps (Suc (Suc (Suc (Suc (Suc 0))))) SPINDLE_START_DELAY
     (initial
        [''(OPTIMIZED: When using Fusion 360 for Personal Use)'', ''G0 Z5'', ''G1 Z-5 F100'',
         ''G1 Z0 X20'', ''G1 Z-3 X30''] 5)
   = (None,
      \<lparr>doc =
         [''(OPTIMIZED: When using Fusion 360 for Personal Use)'', ''G0 Z5'', ''G1 Z-5 F100'',
          ''G0 Z0 X20'', ''G1 F100'', ''G1 Z-3 X30''],
       lineIdx = 5, lineCount = 6, curZ = Some (Decimal (- 3) 0), curG = Some 1,
       curF = Some (Decimal 100 0), feedZ = Some (Decimal (- 5) 0), restoreF = False,
       optimized = True\<rparr>)
   \<and> OptimizeGCode SPINDLE_START_DELAY
     [''(When using Fusion 360 for Personal Use)'', ''G0 Z5'', ''G1 Z-5 F100'',
      ''G1 Z0 X20'', ''G1 Z-3 X30'']
   = \<lparr>document =
        [''(OPTIMIZED: When using Fusion 360 for Personal Use)'', ''G0 Z5'', ''G1 Z-5 F100'',
         ''G0 Z0 X20'', ''G1 F100'', ''G0 Z-3 X30''],
      logged = True, thrown = None\<rparr>"
  by (simp add: run_defs pattern_defs number_defs)

text \<open>
  Claim C6. The claim says that a line without the token \<^verbatim>\<open>M3\<close>, such as one holding
  only \<^verbatim>\<open>M30\<close>, gets no dwell. The test is \<^verbatim>\<open>indexOf("M3")\<close>, which finds \<^verbatim>\<open>M3\<close> inside
  \<^verbatim>\<open>M30\<close>: with the delay 3 the program end is followed by \<^verbatim>\<open>G4 P3\<close>.
\<close>

theorem dwell_after_M30:
  "OptimizeGCode SPINDLE_START_DELAY
     [''(When using Fusion 360 for Personal Use)'', ''G0 X0 Y0'', ''M30'']
   = \<lparr>document =
        [''(OPTIMIZED: When using Fusion 360 for Personal Use)'', ''G0 X0 Y0'', ''M30'',
         ''G4 P3''],
      logged = False, thrown = None\<rparr>"
  by (simp add: run_defs pattern_defs number_defs)

section \<open>Tracked values on given programs\<close>

text \<open>
  Claim C7, counterexample. The text \<^verbatim>\<open>1.2.3\<close> matches the Z pattern and is no number: it
  does not count as absent, the tracked Z becomes \<^verbatim>\<open>NaN\<close> and the 5 of the line before is
  lost.
\<close>

theorem malformed_number_is_tracked:
  "curZ (snd (loop2 SPINDLE_START_DELAY (initial [''G0 Z5'', ''G1 Z1.2.3 X4''] 2))) = Some NaN
   \<and> curZ (snd (loop2 SPINDLE_START_DELAY (initial [''G0 Z5'', ''G1 Z1.2.3 X4''] 2)))
       \<noteq> Some (Decimal 5 0)"
  by (simp add: run_defs pattern_defs number_defs)

text \<open>
  Claim C7, witness: three lines, the second skipped for its \<^verbatim>\<open>M3\<close> (its F300 is not
  tracked); the loop ends after three iterations.
\<close>

theorem sticky_state_witness:
  "\<exists>s. steps (Suc (Suc (Suc 0))) SPINDLE_START_DELAY
          (initial [''G0 Z5 F200'', ''G1 X4 F300 M3'', ''G1 Z1.5'']
             (length [''G0 Z5 F200'', ''G1 X4 F300 M3'', ''G1 Z1.5''])) = (None, s)
      \<and> loop2 SPINDLE_START_DELAY
          (initial [''G0 Z5 F200'', ''G1 X4 F300 M3'', ''G1 Z1.5'']
             (length [''G0 Z5 F200'', ''G1 X4 F300 M3'', ''G1 Z1.5''])) = (None, s)
      \<and> curG s = Some 1 \<and> curZ s = Some (Decimal 15 1) \<and> curF s = Some (Decimal 200 0)
      \<and> (\<exists>k\<le>3.
            curG s = lastSpecified wordG (filter (tracked SPINDLE_START_DELAY)
              (take k [''G0 Z5 F200'', ''G1 X4 F300 M3'', ''G1 Z1.5'']))
          \<and> drop (lineIdx s) (doc s) = drop k [''G0 Z5 F200'', ''G1 X4 F300 M3'', ''G1 Z1.5''])
      \<and> curG s = lastSpecified wordG (filter (tracked SPINDLE_START_DELAY)
            [''G0 Z5 F200'', ''G1 X4 F300 M3'', ''G1 Z1.5''])
      \<and> curZ s = lastSpecified wordZ (filter (tracked SPINDLE_START_DELAY)
            [''G0 Z5 F200'', ''G1 X4 F300 M3'', ''G1 Z1.5''])
      \<and> curF s = lastSpecified wordF (filter (tracked SPINDLE_START_DELAY)
            [''G0 Z5 F200'', ''G1 X4 F300 M3'', ''G1 Z1.5''])"
proof -
  let ?d = "[''G0 Z5 F200'', ''G1 X4 F300 M3'', ''G1 Z1.5'']"
  let ?s = "\<lparr>doc = [''G0 Z5 F200'', ''G1 X4 F300 M3'', ''G4 P3'', ''G1 Z1.5''],
       lineIdx = 4, lineCount = 4, curZ = Some (Decimal 15 1), curG = Some 1,
       curF = Some (Decimal 200 0), feedZ = Some (Decimal 15 1), restoreF = False,
       optimized = False\<rparr>"
  have run: "steps (Suc (Suc (Suc 0))) SPINDLE_START_DELAY (initial ?d (length ?d)) = (None, ?s)"
    by (simp add: run_defs pattern_defs number_defs)
  have whole: "loop2 SPINDLE_START_DELAY (initial ?d (length ?d)) = (None, ?s)"
    by (simp add: run_defs pattern_defs number_defs)
  from sticky_state [THEN conjunct1, rule_format, OF run] obtain k where k: "k \<le> length ?d"
    and g: "curG ?s = lastSpecified wordG (filter (tracked SPINDLE_START_DELAY) (take k ?d))"
    and pos: "drop (lineIdx ?s) (doc ?s) = drop k ?d
           \<or> (0 < k \<and> drop (lineIdx ?s) (doc ?s) = drop (k - 1) ?d)"
    by blast
  from pos k have "k = 3"
    by (cases "k = 3") auto
  with g have iter: "\<exists>k\<le>3.
      curG ?s = lastSpecified wordG (filter (tracked SPINDLE_START_DELAY) (take k ?d))
      \<and> drop (lineIdx ?s) (doc ?s) = drop k ?d"
    by (intro exI [of _ 3]) simp
  from sticky_state [THEN conjunct2, rule_format, OF whole]
  have final: "curG ?s = lastSpecified wordG (filter (tracked SPINDLE_START_DELAY) ?d)"
    "curZ ?s = lastSpecified wordZ (filter (tracked SPINDLE_START_DELAY) ?d)"
    "curF ?s = lastSpecified wordF (filter (tracked SPINDLE_START_DELAY) ?d)"
    by blast+
  from run whole iter final show ?thesis
    by (intro exI [of _ ?s]) simp
qed

section \<open>Markers at the start of a line\<close>

text \<open>
  Claim C8, counterexample. A space before the parenthesis hides both markers: the tool
  comment is not found, and the loop reads the Z word of the comment.
\<close>

theorem leading_space_hides_marker:
  "GetToolInfo ['' (T1 Router ZMIN=-10.5)''] = None
   \<and> curZ (snd (loop2 SPINDLE_START_DELAY (initial ['' (Z5 is the retract height)''] 1)))
       = Some (Decimal 5 0)"
  by (simp add: run_defs pattern_defs number_defs)

text \<open>
  Claim C8, as amended. Markers are recognised at the very start of a line, nothing is
  trimmed. A line counts as a comment exactly when its first character is \<^verbatim>\<open>(\<close>; the loop
  leaves a comment without an edit and without reading its words (a block-start line
  resets \<^verbatim>\<open>feedZ\<close>), and passes every other line on to the spindle test and the motion
  rules. \<^verbatim>\<open>GetToolInfo\<close> returns the first line that begins with \<^verbatim>\<open>(T\<close>, and nothing when no
  line does.
\<close>

theorem line_start_markers:
  assumes "line = getLine (doc s) (lineIdx s)"
  shows "(startsWith line ''('' \<longleftrightarrow> (\<exists>r. line = CHR ''('' # r))
    \<and> (startsWith line ''('' \<longrightarrow>
         body delay s = Inr (if startsWith line blockStart then s\<lparr>feedZ := None\<rparr> else s))
    \<and> (\<not> startsWith line ''('' \<longrightarrow>
         body delay s =
           (if 0 < delay \<and> indexOf line ''M3'' \<noteq> - 1
            then Inr (s\<lparr>doc := insertFullLines (doc s) (lineIdx s + 1) [''G4 P'' @ digitsOf delay],
                       lineIdx := lineIdx s + 1, lineCount := lineCount s + 1\<rparr>)
            else rapid line s))
    \<and> (list_all (\<lambda>x. \<not> startsWith x ''(T'') pre \<and> startsWith l ''(T'' \<longrightarrow>
         GetToolInfo (pre @ l # post) = Some \<lparr>toolName = toolNameOf l, minZ = minZOf l\<rparr>)
    \<and> (list_all (\<lambda>x. \<not> startsWith x ''(T'') pre \<longrightarrow> GetToolInfo pre = None)"
proof -
  have 1: "startsWith line ''('' \<longleftrightarrow> (\<exists>r. line = CHR ''('' # r)"
    by (simp add: startsWith_iff)
  have 2: "body delay s = Inr (if startsWith line blockStart then s\<lparr>feedZ := None\<rparr> else s)"
    if "startsWith line ''(''"
    using that assms by (simp add: body_def Let_def)
  have "\<not> startsWith line blockStart" if "\<not> startsWith line ''(''"
    using that blockStart_comment by blast
  then have 3: "body delay s =
           (if 0 < delay \<and> indexOf line ''M3'' \<noteq> - 1
            then Inr (s\<lparr>doc := insertFullLines (doc s) (lineIdx s + 1) [''G4 P'' @ digitsOf delay],
                       lineIdx := lineIdx s + 1, lineCount := lineCount s + 1\<rparr>)
            else rapid line s)"
    if "\<not> startsWith line ''(''"
    using that assms by (simp add: body_def Let_def)
  show ?thesis
    using 1 2 3 GetToolInfo_first [of pre l post] GetToolInfo_none [of pre] by blast
qed

text \<open>
  Claim C8, witness: a comment and the same comment after a space, and a program whose
  first tool comment is hidden by a space.
\<close>

theorem line_start_markers_witness:
  "body SPINDLE_START_DELAY (initial [''(Z5 is the retract height)''] 1)
     = Inr (initial [''(Z5 is the retract height)''] 1)
   \<and> body SPINDLE_START_DELAY (initial ['' (Z5 is the retract height)''] 1)
     = Inr ((initial ['' (Z5 is the retract height)''] 1)\<lparr>curZ := Some (Decimal 5 0)\<rparr>)
   \<and> GetToolInfo ([''G21'', '' (T0 probe)''] @ ''(T1 Router ZMIN=-10.5)'' # [''(T2 Drill)''])
     = Some \<lparr>toolName = ''(Router10.5)'', minZ = Some (Decimal (- 105) 1)\<rparr>
   \<and> GetToolInfo [''G21'', '' (T0 probe)''] = None"
proof -
  let ?a = "initial [''(Z5 is the retract height)''] 1"
  let ?b = "initial ['' (Z5 is the retract height)''] 1"
  let ?pre = "[''G21'', '' (T0 probe)'']"
  let ?l = "''(T1 Router ZMIN=-10.5)''"
  have a: "''(Z5 is the retract height)'' = getLine (doc ?a) (lineIdx ?a)"
    and b: "'' (Z5 is the retract height)'' = getLine (doc ?b) (lineIdx ?b)"
    by (simp_all add: initial_def getLine_def)
  have pre: "list_all (\<lambda>x. \<not> startsWith x ''(T'') ?pre"
    by (simp add: startsWith_def)
  have "body SPINDLE_START_DELAY ?a = Inr ?a"
    using line_start_markers [OF a, of SPINDLE_START_DELAY]
    by (simp add: pattern_defs blockStart_def)
  moreover have "body SPINDLE_START_DELAY ?b = Inr (?b\<lparr>curZ := Some (Decimal 5 0)\<rparr>)"
    using line_start_markers [OF b, of SPINDLE_START_DELAY]
    by (simp add: run_defs pattern_defs number_defs)
  moreover have "GetToolInfo (?pre @ ?l # [''(T2 Drill)''])
       = Some \<lparr>toolName = ''(Router10.5)'', minZ = Some (Decimal (- 105) 1)\<rparr>"
    using line_start_markers [OF a, of SPINDLE_START_DELAY ?pre ?l "[''(T2 Drill)'']"] pre
    by (simp add: router_line)
  moreover have "GetToolInfo ?pre = None"
    using line_start_markers [OF a, of SPINDLE_START_DELAY ?pre] pre by simp
  ultimately show ?thesis by simp
qed

section \<open>Spindle lines without a delay\<close>

text \<open>
  The words of a line, read off its text: the digits after a leading \<^verbatim>\<open>G\<close>, and the digits
  and dots (for Z with a minus sign before them, if there is one) after the first \<^verbatim>\<open>Z\<close>
  and the first \<^verbatim>\<open>F\<close>.
\<close>

lemma takeWhile_run:
  assumes "list_all P u" and "r = [] \<or> \<not> P (hd r)"
  shows "takeWhile P (u @ r) = u" and "dropWhile P (u @ r) = r"
proof -
  have "takeWhile P r = []" and "dropWhile P r = r"
    using assms(2) by (cases r; simp)+
  then show "takeWhile P (u @ r) = u" and "dropWhile P (u @ r) = r"
    using assms(1) by (simp_all add: list_all_iff)
qed

lemma search_skip:
  assumes "\<And>x cs. x \<in> set pre \<Longrightarrow> m (x # cs) = None"
  shows "search m (pre @ c # rest) = search m (c # rest)"
  using assms by (induction pre) simp_all

lemma wordG_text:
  assumes "ds \<noteq> []" and "list_all isDigit ds" and "r = [] \<or> \<not> isDigit (hd r)"
  shows "wordG (CHR ''G'' # ds @ r) = Some (digitsVal ds)"
  using assms(1) takeWhile_run [OF assms(2,3)]
  by (simp add: wordG_def matchG_def afterPrefix_def startsWith_def)

lemma numText_run:
  assumes "u \<noteq> []" and "list_all isNumChar u" and "r = [] \<or> \<not> isNumChar (hd r)"
  shows "numText (u @ r) = Some u"
  using assms(1) takeWhile_run(1) [OF assms(2,3)] by (simp add: numText_def)

lemma signedNumText_run:
  assumes "sg = [] \<or> sg = ''-''" and "u \<noteq> []" and "list_all isNumChar u"
    and "r = [] \<or> \<not> isNumChar (hd r)"
  shows "signedNumText (sg @ u @ r) = Some (sg @ u)"
proof -
  from assms(1) show ?thesis
  proof
    assume sg: "sg = []"
    obtain c u' where u: "u = c # u'"
      using assms(2) by (cases u) auto
    then have "c \<noteq> CHR ''-''"
      using assms(3) by (auto simp: isNumChar_def isDigit_def)
    then show ?thesis
      using numText_run [OF assms(2-4)] sg u by (simp add: signedNumText_def)
  next
    assume "sg = ''-''"
    then show ?thesis
      using assms(2) takeWhile_run(1) [OF assms(3,4)] by (simp add: signedNumText_def)
  qed
qed

lemma wordZ_text:
  assumes "CHR ''Z'' \<notin> set pre" and "sg = [] \<or> sg = ''-''" and "u \<noteq> []"
    and "list_all isNumChar u" and "r = [] \<or> \<not> isNumChar (hd r)"
  shows "wordZ (pre @ CHR ''Z'' # sg @ u @ r) = Some (Number (sg @ u))"
proof -
  have "matchZ (x # cs) = None" if "x \<in> set pre" for x cs
    using that assms(1) by (auto simp: matchZ_def afterPrefix_def startsWith_def)
  then have "search matchZ (pre @ CHR ''Z'' # sg @ u @ r) = search matchZ (CHR ''Z'' # sg @ u @ r)"
    by (rule search_skip)
  moreover have "matchZ (CHR ''Z'' # sg @ u @ r) = Some (sg @ u)"
    using signedNumText_run [OF assms(2-5)] by (simp add: matchZ_def afterPrefix_def startsWith_def)
  ultimately show ?thesis
    by (simp add: wordZ_def)
qed

lemma wordF_text:
  assumes "CHR ''F'' \<notin> set pre" and "u \<noteq> []"
    and "list_all isNumChar u" and "r = [] \<or> \<not> isNumChar (hd r)"
  shows "wordF (pre @ CHR ''F'' # u @ r) = Some (Number u)"
proof -
  have "matchF (x # cs) = None" if "x \<in> set pre" for x cs
    using that assms(1) by (auto simp: matchF_def afterPrefix_def startsWith_def)
  then have "search matchF (pre @ CHR ''F'' # u @ r) = search matchF (CHR ''F'' # u @ r)"
    by (rule search_skip)
  moreover have "matchF (CHR ''F'' # u @ r) = Some u"
    using numText_run [OF assms(2-4)] by (simp add: matchF_def afterPrefix_def startsWith_def)
  ultimately show ?thesis
    by (simp add: wordF_def)
qed

text \<open>
  Claim C9. With the delay zero a line that is no comment and holds \<^verbatim>\<open>M3\<close> is not
  skipped: the body of the loop is the motion code, which overwrites the tracked mode, Z
  and feed with the words of the line (the number after its leading \<^verbatim>\<open>G\<close>, after its first
  \<^verbatim>\<open>Z\<close> and after its first \<^verbatim>\<open>F\<close>), promotes the line when the second rule applies and
  inserts the feed restore when it is pending. The line is skipped, with a dwell after
  it, only when the delay is positive.
\<close>

theorem spindle_line_without_delay:
  assumes "line = getLine (doc s) (lineIdx s)" and "\<not> startsWith line ''(''"
    and "indexOf line ''M3'' \<noteq> - 1"
  shows "body 0 s = rapid line s
    \<and> (rapid line s = Inr s' \<longrightarrow>
          curG s' = (case wordG line of None \<Rightarrow> curG s | Some v \<Rightarrow> Some v)
        \<and> curZ s' = (case wordZ line of None \<Rightarrow> curZ s | Some v \<Rightarrow> Some v)
        \<and> curF s' = (case wordF line of None \<Rightarrow> curF s | Some v \<Rightarrow> Some v))
    \<and> (rapid line s = Inr s' \<and> line = CHR ''G'' # ds @ rg \<and> ds \<noteq> [] \<and> list_all isDigit ds
          \<and> (rg = [] \<or> \<not> isDigit (hd rg)) \<longrightarrow>
        curG s' = Some (digitsVal ds))
    \<and> (rapid line s = Inr s' \<and> line = pz @ CHR ''Z'' # sg @ uz @ rz \<and> CHR ''Z'' \<notin> set pz
          \<and> (sg = [] \<or> sg = ''-'') \<and> uz \<noteq> [] \<and> list_all isNumChar uz
          \<and> (rz = [] \<or> \<not> isNumChar (hd rz)) \<longrightarrow>
        curZ s' = Some (Number (sg @ uz)))
    \<and> (rapid line s = Inr s' \<and> line = pf @ CHR ''F'' # uf @ rf \<and> CHR ''F'' \<notin> set pf
          \<and> uf \<noteq> [] \<and> list_all isNumChar uf \<and> (rf = [] \<or> \<not> isNumChar (hd rf)) \<longrightarrow>
        curF s' = Some (Number uf))
    \<and> (curG (track line s) = Some 1 \<and> feedZ s \<noteq> None
          \<and> js_ge (curZ (track line s)) (feedZ s) \<and> js_ge (curZ (track line s)) (curZ s) \<longrightarrow>
        body 0 s =
          Inr ((track line s)\<lparr>doc := replaceRange (doc s) (lineIdx s) 0 (length line) (promote line),
                               restoreF := True, optimized := True\<rparr>))
    \<and> (restoreF s \<and> feedZ s \<noteq> None \<and> \<not> js_ge (curZ (track line s)) (curZ s)
          \<and> curF (track line s) = Some f \<longrightarrow>
        body 0 s =
          Inr ((track line s)\<lparr>doc := insertFullLines (doc s) (lineIdx s) [''G1 F'' @ toFixed0 f],
                               lineCount := lineCount s + 1, restoreF := False\<rparr>))
    \<and> (0 < delay \<longrightarrow>
        body delay s =
          Inr (s\<lparr>doc := insertFullLines (doc s) (lineIdx s + 1) [''G4 P'' @ digitsOf delay],
                 lineIdx := lineIdx s + 1, lineCount := lineCount s + 1\<rparr>))"
proof -
  have nb: "\<not> startsWith line blockStart"
    using assms(2) blockStart_comment by blast
  have 1: "body 0 s = rapid line s"
    using assms(1,2) nb by (simp add: body_def Let_def)
  have 2: "curG s' = (case wordG line of None \<Rightarrow> curG s | Some v \<Rightarrow> Some v)
        \<and> curZ s' = (case wordZ line of None \<Rightarrow> curZ s | Some v \<Rightarrow> Some v)
        \<and> curF s' = (case wordF line of None \<Rightarrow> curF s | Some v \<Rightarrow> Some v)"
    if "rapid line s = Inr s'"
    using rapid_effect [OF that] by (simp add: track_values)
  have g: "curG s' = Some (digitsVal ds)"
    if "rapid line s = Inr s' \<and> line = CHR ''G'' # ds @ rg \<and> ds \<noteq> [] \<and> list_all isDigit ds
          \<and> (rg = [] \<or> \<not> isDigit (hd rg))"
  proof -
    have "wordG line = Some (digitsVal ds)"
      using that wordG_text [of ds rg] by simp
    moreover have "rapid line s = Inr s'"
      using that by blast
    ultimately show ?thesis using 2 by simp
  qed
  have z: "curZ s' = Some (Number (sg @ uz))"
    if "rapid line s = Inr s' \<and> line = pz @ CHR ''Z'' # sg @ uz @ rz \<and> CHR ''Z'' \<notin> set pz
          \<and> (sg = [] \<or> sg = ''-'') \<and> uz \<noteq> [] \<and> list_all isNumChar uz
          \<and> (rz = [] \<or> \<not> isNumChar (hd rz))"
  proof -
    have "wordZ line = Some (Number (sg @ uz))"
      using that wordZ_text [of pz sg uz rz] by simp
    moreover have "rapid line s = Inr s'"
      using that by blast
    ultimately show ?thesis using 2 by simp
  qed
  have f: "curF s' = Some (Number uf)"
    if "rapid line s = Inr s' \<and> line = pf @ CHR ''F'' # uf @ rf \<and> CHR ''F'' \<notin> set pf
          \<and> uf \<noteq> [] \<and> list_all isNumChar uf \<and> (rf = [] \<or> \<not> isNumChar (hd rf))"
  proof -
    have "wordF line = Some (Number uf)"
      using that wordF_text [of pf uf rf] by simp
    moreover have "rapid line s = Inr s'"
      using that by blast
    ultimately show ?thesis using 2 by simp
  qed
  have 3: "rapid line s =
          Inr ((track line s)\<lparr>doc := replaceRange (doc s) (lineIdx s) 0 (length line) (promote line),
                               restoreF := True, optimized := True\<rparr>)"
    if "curG (track line s) = Some 1 \<and> feedZ s \<noteq> None
          \<and> js_ge (curZ (track line s)) (feedZ s) \<and> js_ge (curZ (track line s)) (curZ s)"
    using that by (auto simp: rapid_def Let_def)
  have 4: "rapid line s =
          Inr ((track line s)\<lparr>doc := insertFullLines (doc s) (lineIdx s) [''G1 F'' @ toFixed0 f],
                               lineCount := lineCount s + 1, restoreF := False\<rparr>)"
    if "restoreF s \<and> feedZ s \<noteq> None \<and> \<not> js_ge (curZ (track line s)) (curZ s)
          \<and> curF (track line s) = Some f"
    using that by (auto simp: rapid_def Let_def)
  have 5: "body delay s =
          Inr (s\<lparr>doc := insertFullLines (doc s) (lineIdx s + 1) [''G4 P'' @ digitsOf delay],
                 lineIdx := lineIdx s + 1, lineCount := lineCount s + 1\<rparr>)"
    if "0 < delay"
    using that assms nb by (simp add: body_def Let_def)
  show ?thesis
    unfolding 1 using 2 g z f 3 4 5 by (intro conjI impI) blast+
qed

text \<open>
  Claim C9, witness: the mode before each line is \<^verbatim>\<open>G0\<close>. With the delay zero the line
  \<^verbatim>\<open>G1 Z0 X20 M3\<close> sets the mode to 1 and is promoted, and the line \<^verbatim>\<open>G1 Z-3 F250 M3\<close>
  sets mode, Z and feed and gets the feed restore; with the delay 3 the first line is
  skipped and the mode stays 0.
\<close>

theorem spindle_line_without_delay_witness:
  "body 0 ((initial [''G1 Z0 X20 M3''] 1)
             \<lparr>curZ := Some (Decimal (- 5) 0), curG := Some 0, curF := Some (Decimal 100 0),
              feedZ := Some (Decimal (- 5) 0)\<rparr>)
     = Inr \<lparr>doc = [''G0 Z0 X20 M3''], lineIdx = 0, lineCount = 1, curZ = Some (Decimal 0 0),
           curG = Some 1, curF = Some (Decimal 100 0), feedZ = Some (Decimal (- 5) 0),
           restoreF = True, optimized = True\<rparr>
   \<and> body 0 ((initial [''G1 Z-3 F250 M3''] 1)
             \<lparr>curZ := Some (Decimal 0 0), curG := Some 0, curF := Some (Decimal 100 0),
              feedZ := Some (Decimal (- 5) 0), restoreF := True\<rparr>)
     = Inr \<lparr>doc = [''G1 F250'', ''G1 Z-3 F250 M3''], lineIdx = 0, lineCount = 2,
           curZ = Some (Decimal (- 3) 0), curG = Some 1, curF = Some (Decimal 250 0),
           feedZ = Some (Decimal (- 5) 0), restoreF = False, optimized = False\<rparr>
   \<and> (\<exists>s'. rapid ''G1 Z-3 F250 M3''
             ((initial [''G1 Z-3 F250 M3''] 1)
                \<lparr>curZ := Some (Decimal 0 0), curG := Some 0, curF := Some (Decimal 100 0),
                 feedZ := Some (Decimal (- 5) 0), restoreF := True\<rparr>) = Inr s'
        \<and> curG s' = Some (digitsVal ''1'') \<and> curG s' = Some 1
        \<and> curZ s' = Some (Number ''-3'') \<and> curZ s' = Some (Decimal (- 3) 0)
        \<and> curF s' = Some (Number ''250'') \<and> curF s' = Some (Decimal 250 0))
   \<and> body SPINDLE_START_DELAY ((initial [''G1 Z0 X20 M3''] 1)
             \<lparr>curZ := Some (Decimal (- 5) 0), curG := Some 0, curF := Some (Decimal 100 0),
              feedZ := Some (Decimal (- 5) 0)\<rparr>)
     = Inr \<lparr>doc = [''G1 Z0 X20 M3'', ''G4 P3''], lineIdx = 1, lineCount = 2,
           curZ = Some (Decimal (- 5) 0), curG = Some 0, curF = Some (Decimal 100 0),
           feedZ = Some (Decimal (- 5) 0), restoreF = False, optimized = False\<rparr>"
proof -
  let ?la = "''G1 Z0 X20 M3''" and ?lb = "''G1 Z-3 F250 M3''"
  let ?a = "(initial [?la] 1)
             \<lparr>curZ := Some (Decimal (- 5) 0), curG := Some 0, curF := Some (Decimal 100 0),
              feedZ := Some (Decimal (- 5) 0)\<rparr>"
  let ?b = "(initial [?lb] 1)
             \<lparr>curZ := Some (Decimal 0 0), curG := Some 0, curF := Some (Decimal 100 0),
              feedZ := Some (Decimal (- 5) 0), restoreF := True\<rparr>"
  let ?xb = "\<lparr>doc = [''G1 F250'', ?lb], lineIdx = 0, lineCount = 2,
           curZ = Some (Decimal (- 3) 0), curG = Some 1, curF = Some (Decimal 250 0),
           feedZ = Some (Decimal (- 5) 0), restoreF = False, optimized = False\<rparr>"
  have a: "?la = getLine (doc ?a) (lineIdx ?a)" "\<not> startsWith ?la ''(''"
    "indexOf ?la ''M3'' \<noteq> - 1"
    by (simp_all add: initial_def getLine_def pattern_defs)
  have b: "?lb = getLine (doc ?b) (lineIdx ?b)" "\<not> startsWith ?lb ''(''"
    "indexOf ?lb ''M3'' \<noteq> - 1"
    by (simp_all add: initial_def getLine_def pattern_defs)
  note wa = spindle_line_without_delay [OF a]
  note wb = spindle_line_without_delay [OF b]
  have promoted: "curG (track ?la ?a) = Some 1 \<and> feedZ ?a \<noteq> None
      \<and> js_ge (curZ (track ?la ?a)) (feedZ ?a) \<and> js_ge (curZ (track ?la ?a)) (curZ ?a)"
    by (simp add: track_def initial_def wordG_def wordZ_def wordF_def pattern_defs number_defs)
  have restored: "restoreF ?b \<and> feedZ ?b \<noteq> None \<and> \<not> js_ge (curZ (track ?lb ?b)) (curZ ?b)
      \<and> curF (track ?lb ?b) = Some (Decimal 250 0)"
    by (simp add: track_def initial_def wordG_def wordZ_def wordF_def pattern_defs number_defs)
  have delay: "0 < SPINDLE_START_DELAY"
    by (simp add: SPINDLE_START_DELAY_def)
  from wa [THEN conjunct2, THEN conjunct2, THEN conjunct2, THEN conjunct2, THEN conjunct2,
      THEN conjunct1] promoted
  have 1: "body 0 ?a =
      Inr ((track ?la ?a)\<lparr>doc := replaceRange (doc ?a) (lineIdx ?a) 0 (length ?la) (promote ?la),
                            restoreF := True, optimized := True\<rparr>)"
    by (rule mp)
  from wb [THEN conjunct2, THEN conjunct2, THEN conjunct2, THEN conjunct2, THEN conjunct2,
      THEN conjunct2, THEN conjunct1] restored
  have 2: "body 0 ?b =
      Inr ((track ?lb ?b)\<lparr>doc := insertFullLines (doc ?b) (lineIdx ?b)
                                    [''G1 F'' @ toFixed0 (Decimal 250 0)],
                            lineCount := lineCount ?b + 1, restoreF := False\<rparr>)"
    by (rule mp)
  from wa [THEN conjunct2, THEN conjunct2, THEN conjunct2, THEN conjunct2, THEN conjunct2,
      THEN conjunct2, THEN conjunct2] delay
  have 3: "body SPINDLE_START_DELAY ?a =
      Inr (?a\<lparr>doc := insertFullLines (doc ?a) (lineIdx ?a + 1)
                         [''G4 P'' @ digitsOf SPINDLE_START_DELAY],
               lineIdx := lineIdx ?a + 1, lineCount := lineCount ?a + 1\<rparr>)"
    by (rule mp)
  have xb: "(track ?lb ?b)\<lparr>doc := insertFullLines (doc ?b) (lineIdx ?b)
                                    [''G1 F'' @ toFixed0 (Decimal 250 0)],
                            lineCount := lineCount ?b + 1, restoreF := False\<rparr> = ?xb"
    by (simp add: track_def initial_def insertFullLines_def wordG_def wordZ_def wordF_def
        pattern_defs number_defs)
  have rb: "rapid ?lb ?b = Inr ?xb"
    using wb [THEN conjunct1] 2 xb by simp
  have hg: "rapid ?lb ?b = Inr ?xb \<and> ?lb = CHR ''G'' # ''1'' @ '' Z-3 F250 M3'' \<and> ''1'' \<noteq> []
      \<and> list_all isDigit ''1'' \<and> ('' Z-3 F250 M3'' = [] \<or> \<not> isDigit (hd '' Z-3 F250 M3''))"
    using rb by (simp add: isDigit_def)
  have hz: "rapid ?lb ?b = Inr ?xb \<and> ?lb = ''G1 '' @ CHR ''Z'' # ''-'' @ ''3'' @ '' F250 M3''
      \<and> CHR ''Z'' \<notin> set ''G1 '' \<and> (''-'' = [] \<or> ''-'' = ''-'') \<and> ''3'' \<noteq> []
      \<and> list_all isNumChar ''3'' \<and> ('' F250 M3'' = [] \<or> \<not> isNumChar (hd '' F250 M3''))"
    using rb by (simp add: isDigit_def isNumChar_def)
  have hf: "rapid ?lb ?b = Inr ?xb \<and> ?lb = ''G1 Z-3 '' @ CHR ''F'' # ''250'' @ '' M3''
      \<and> CHR ''F'' \<notin> set ''G1 Z-3 '' \<and> ''250'' \<noteq> []
      \<and> list_all isNumChar ''250'' \<and> ('' M3'' = [] \<or> \<not> isNumChar (hd '' M3''))"
    using rb by (simp add: isDigit_def isNumChar_def)
  from wb [THEN conjunct2, THEN conjunct2, THEN conjunct1] hg
  have g: "curG ?xb = Some (digitsVal ''1'')"
    by (rule mp)
  from wb [THEN conjunct2, THEN conjunct2, THEN conjunct2, THEN conjunct1] hz
  have z: "curZ ?xb = Some (Number (''-'' @ ''3''))"
    by (rule mp)
  from wb [THEN conjunct2, THEN conjunct2, THEN conjunct2, THEN conjunct2, THEN conjunct1] hf
  have f: "curF ?xb = Some (Number ''250'')"
    by (rule mp)
  have words: "\<exists>s'. rapid ?lb ?b = Inr s'
        \<and> curG s' = Some (digitsVal ''1'') \<and> curG s' = Some 1
        \<and> curZ s' = Some (Number ''-3'') \<and> curZ s' = Some (Decimal (- 3) 0)
        \<and> curF s' = Some (Number ''250'') \<and> curF s' = Some (Decimal 250 0)"
    using rb g z f by (intro exI [of _ ?xb]) simp
  have first: "body 0 ?a = Inr \<lparr>doc = [''G0 Z0 X20 M3''], lineIdx = 0, lineCount = 1,
      curZ = Some (Decimal 0 0), curG = Some 1, curF = Some (Decimal 100 0),
      feedZ = Some (Decimal (- 5) 0), restoreF = True, optimized = True\<rparr>"
    unfolding 1
    by (simp add: track_def initial_def promote_def replaceRange_def
        wordG_def wordZ_def wordF_def pattern_defs number_defs)
  have second: "body 0 ?b = Inr ?xb"
    unfolding 2 xb ..
  have third: "body SPINDLE_START_DELAY ?a =
      Inr \<lparr>doc = [''G1 Z0 X20 M3'', ''G4 P3''], lineIdx = 1, lineCount = 2,
           curZ = Some (Decimal (- 5) 0), curG = Some 0, curF = Some (Decimal 100 0),
           feedZ = Some (Decimal (- 5) 0), restoreF = False, optimized = False\<rparr>"
    unfolding 3
    by (simp add: initial_def insertFullLines_def SPINDLE_START_DELAY_def number_defs)
  from first second words third show ?thesis
    by (intro conjI)
qed

end
